theory Spec2Isabelle
  imports Main "HOL-Library.Sublist"
begin

section \<open>Text\<close>

text \<open>
  Python strings are sequences of code points. The model uses \<^typ>\<open>string\<close>, whose
  characters are the code points 0 to 255 (ASCII and Latin-1); on that range the
  library functions below agree with CPython: \<open>\s\<close> of a \<open>str\<close> pattern and
  \<open>str.isspace\<close> accept the twelve code points of \<open>isspace\<close>, \<open>\d\<close> accepts
  the ten ASCII digits only, and \<open>str.lower\<close> maps \<open>A-Z\<close> and the upper-case
  Latin-1 letters (U+00C0 to U+00DE without U+00D7) to the code point 32 higher.
\<close>

definition isspace :: "char \<Rightarrow> bool" where
  "isspace c = ((of_char c :: nat) \<in> {9, 10, 11, 12, 13, 28, 29, 30, 31, 32, 133, 160})"

definition isdecimal :: "char \<Rightarrow> bool" where
  "isdecimal c = (48 \<le> (of_char c :: nat) \<and> (of_char c :: nat) \<le> 57)"

definition lower_char :: "char \<Rightarrow> char" where
  "lower_char c =
     (let n = (of_char c :: nat)
      in if (65 \<le> n \<and> n \<le> 90) \<or> (192 \<le> n \<and> n \<le> 222 \<and> n \<noteq> 215)
         then char_of (n + 32) else c)"

definition str_lower :: "string \<Rightarrow> string" where
  \<comment> \<open>\<open>s.lower()\<close>\<close>
  "str_lower s = map lower_char s"

definition str_strip :: "string \<Rightarrow> string" where
  \<comment> \<open>\<open>s.strip()\<close>\<close>
  "str_strip s = rev (dropWhile isspace (rev (dropWhile isspace s)))"

fun str_in :: "string \<Rightarrow> string \<Rightarrow> bool" where
  \<comment> \<open>\<open>k in s\<close> on strings: \<open>k\<close> occurs in \<open>s\<close> at some position\<close>
  "str_in k [] = (k = [])"
| "str_in k (c # s) = (prefix k (c # s) \<or> str_in k s)"

function nat_digits :: "nat \<Rightarrow> string" where
  "nat_digits n =
     (if n < 10 then [char_of (48 + n)]
      else nat_digits (n div 10) @ [char_of (48 + n mod 10)])"
  by pat_completeness auto
termination
  by (relation "measure id") auto

definition str_int :: "int \<Rightarrow> string" where
  \<comment> \<open>\<open>str(n)\<close> of an integer: its decimal digits, with a sign when negative\<close>
  "str_int i = (if i < 0 then CHR ''-'' # nat_digits (nat (- i)) else nat_digits (nat i))"

section \<open>Pattern Matcher\<close>

text \<open>
  The regular expressions of the shape the program uses: literals, greedy repetitions
  of a character set, optional sequences and capturing groups. \<open>re\<close> is a
  backtracking matcher; \<open>m_rx r s\<close> lists every way \<open>r\<close> can match a prefix of
  \<open>s\<close>, in the order the backtracking tries them (a greedy repetition first takes the
  longest run, an optional part is first tried present), each with the groups it
  captured and the text left. The first entry is the match \<open>re\<close> reports. The flag
  \<open>re.IGNORECASE\<close> is built in: a literal is compared after lower-casing.
\<close>

datatype citem = Cat_Space | Cat_Digit | Chr char

fun item_matches :: "citem \<Rightarrow> char \<Rightarrow> bool" where
  "item_matches Cat_Space c = isspace c"
| "item_matches Cat_Digit c = isdecimal c"
| "item_matches (Chr x) c = (c = x)"

datatype cset = In "citem list" | Not_In "citem list"

fun in_cset :: "cset \<Rightarrow> char \<Rightarrow> bool" where
  "in_cset (In items) c = (\<exists>i \<in> set items. item_matches i c)"
| "in_cset (Not_In items) c = (\<not> (\<exists>i \<in> set items. item_matches i c))"

datatype rx = Lit char | Plus cset | Star cset | Opt "rx list" | Group "rx list"

type_synonym mres = "string list \<times> string"

fun m_rx :: "rx \<Rightarrow> string \<Rightarrow> mres list"
  and m_seq :: "rx list \<Rightarrow> string \<Rightarrow> mres list" where
  "m_rx (Lit c) s =
     (case s of [] \<Rightarrow> [] | x # xs \<Rightarrow> if lower_char x = lower_char c then [([], xs)] else [])"
| "m_rx (Plus cs) s =
     map (\<lambda>n. ([], drop n s)) (rev [1 ..< Suc (length (takeWhile (in_cset cs) s))])"
| "m_rx (Star cs) s =
     map (\<lambda>n. ([], drop n s)) (rev [0 ..< Suc (length (takeWhile (in_cset cs) s))])"
| "m_rx (Opt rs) s = m_seq rs s @ [([], s)]"
| "m_rx (Group rs) s =
     map (\<lambda>(gs, rest). (take (length s - length rest) s # gs, rest)) (m_seq rs s)"
| "m_seq [] s = [([], s)]"
| "m_seq (r # rs) s =
     concat (map (\<lambda>(g1, s1). map (\<lambda>(g2, s2). (g1 @ g2, s2)) (m_seq rs s1)) (m_rx r s))"

fun re_search :: "rx list \<Rightarrow> string \<Rightarrow> string list option" where
  \<comment> \<open>\<open>pattern.search(s)\<close> followed by \<open>.groups()\<close>: the leftmost start that matches\<close>
  "re_search p s =
     (case m_seq p s of
        (gs, rest) # other \<Rightarrow> Some gs
      | [] \<Rightarrow> (case s of [] \<Rightarrow> None | c # s' \<Rightarrow> re_search p s'))"

definition CREDENTIAL_PATTERN :: "rx list" where
  \<comment> \<open>\<open>(https?://[^\s:/]+(?:\:\d+)?(?:/[^\s]*)?):([^:/\s]+):([^/\s]+)\<close>\<close>
  "CREDENTIAL_PATTERN =
     [Group [Lit CHR ''h'', Lit CHR ''t'', Lit CHR ''t'', Lit CHR ''p'', Opt [Lit CHR ''s''],
             Lit CHR '':'', Lit CHR ''/'', Lit CHR ''/'',
             Plus (Not_In [Cat_Space, Chr CHR '':'', Chr CHR ''/'']),
             Opt [Lit CHR '':'', Plus (In [Cat_Digit])],
             Opt [Lit CHR ''/'', Star (Not_In [Cat_Space])]],
      Lit CHR '':'',
      Group [Plus (Not_In [Chr CHR '':'', Chr CHR ''/'', Cat_Space])],
      Lit CHR '':'',
      Group [Plus (Not_In [Chr CHR ''/'', Cat_Space])]]"

definition credential_search :: "string \<Rightarrow> (string \<times> string \<times> string) option" where
  \<comment> \<open>\<open>match = CREDENTIAL_PATTERN.search(line)\<close>; \<open>url, username, password = match.groups()\<close>\<close>
  "credential_search line =
     (case re_search CREDENTIAL_PATTERN line of
        Some [url, username, password] \<Rightarrow> Some (url, username, password)
      | _ \<Rightarrow> None)"

section \<open>Records\<close>

text \<open>
  A \<open>str\<close> of Python may hold lone surrogates. The name of a file whose bytes are not
  UTF-8 reaches the program, from the command line or from \<open>rglob\<close>, with every
  offending byte \<open>b\<close> as the code point \<open>U+DC00 + b\<close> (the error handler
  \<open>surrogateescape\<close> of the file system encoding). Such a \<open>str\<close> names the file
  and opens it, but the strict UTF-8 encoder of an output file refuses it. The text
  read from a file holds no surrogate: the strict decoders of the three encodings
  produce none. So a path, and a message that quotes a path, is a list of characters
  and lone surrogates, and the text of a line is a \<open>string\<close>.
\<close>

datatype pychar = Char char | Surrogate char

type_synonym pystr = "pychar list"

type_synonym path = pystr

definition Str :: "string \<Rightarrow> pystr" where
  \<comment> \<open>a \<open>str\<close> without surrogates\<close>
  "Str s = map Char s"

fun is_surrogate :: "pychar \<Rightarrow> bool" where
  "is_surrogate (Char c) = False"
| "is_surrogate (Surrogate b) = True"

fun as_char :: "pychar \<Rightarrow> char" where
  \<comment> \<open>the character itself; a lone surrogate is no ASCII character, and where a name
      is only tested for dots, slashes and letters the character \<open>U+0080\<close> stands for it\<close>
  "as_char (Char c) = c"
| "as_char (Surrogate b) = CHR 0x80"

text \<open>
  The program's records are Python dictionaries with string keys, whose values are
  strings or integers; they are kept as association lists in insertion order. A
  string value that holds a lone surrogate is kept apart, as \<open>PLone\<close>.
\<close>

datatype pyval = PStr string | PInt int | PLone pystr

type_synonym pydict = "(string \<times> pyval) list"

definition py_str :: "pystr \<Rightarrow> pyval" where
  \<comment> \<open>a \<open>str\<close> as a value of a dictionary; \<open>str(file_path)\<close> for a path\<close>
  "py_str t = (if list_ex is_surrogate t then PLone t else PStr (map as_char t))"

definition match_record :: "string \<Rightarrow> string \<Rightarrow> string \<Rightarrow> path \<Rightarrow> int \<Rightarrow> pydict" where
  "match_record url username password file_path line_number =
     [(''url'', PStr url), (''username'', PStr username), (''password'', PStr password),
      (''source'', py_str file_path), (''line'', PInt line_number)]"

definition error_record :: "pystr \<Rightarrow> path \<Rightarrow> pydict" where
  "error_record error_msg file_path =
     [(''error'', py_str error_msg), (''source'', py_str file_path)]"

definition has_key :: "string \<Rightarrow> pydict \<Rightarrow> bool" where
  \<comment> \<open>\<open>k in d\<close> on a dictionary\<close>
  "has_key k d = (k \<in> set (map fst d))"

section \<open>Scanner: \<open>search_keywords_in_file\<close>\<close>

text \<open>
  What opening a file under one encoding and iterating over it does is the file
  system's and the codec's: the lines it yields, in order, and how the iteration ends.
  It ends at the end of the file, with \<open>UnicodeDecodeError\<close>, or with another
  exception (also when \<open>open\<close> itself raises, after no line). The text layer decodes
  the file in blocks, so lines of blocks that decoded well are yielded before a later
  block raises the decode error.
\<close>

datatype read_end = Eof | Decode_Error | Other_Error

type_synonym attempt = "string list \<times> read_end"

type_synonym file_system = "path \<Rightarrow> string \<Rightarrow> attempt"

definition scan_line :: "path \<Rightarrow> string list \<Rightarrow> int \<Rightarrow> string \<Rightarrow> pydict list" where
  \<comment> \<open>the body of the loop over the lines: what it appends to \<open>search_results\<close>\<close>
  "scan_line file_path keywords line_number line =
     (case credential_search line of
        None \<Rightarrow> []
      | Some (url, username, password) \<Rightarrow>
          if \<exists>keyword \<in> set keywords. str_in (str_lower keyword) (str_lower url)
          then [match_record url username password file_path line_number]
          else [])"

fun scan_lines :: "path \<Rightarrow> string list \<Rightarrow> int \<Rightarrow> string list \<Rightarrow> pydict list \<Rightarrow> pydict list" where
  \<comment> \<open>\<open>for line_number, line in enumerate(f, start=1)\<close>, from \<open>line_number\<close> on\<close>
  "scan_lines file_path keywords line_number [] search_results = search_results"
| "scan_lines file_path keywords line_number (line # rest) search_results =
     scan_lines file_path keywords (line_number + 1) rest
       (search_results @ scan_line file_path keywords line_number line)"

fun try_encodings ::
  "file_system \<Rightarrow> path \<Rightarrow> string list \<Rightarrow> string list \<Rightarrow> pydict list \<Rightarrow> pydict list" where
  \<comment> \<open>\<open>for encoding in encodings_to_try: ... else: ...\<close>, with \<open>search_results\<close> so far\<close>
  "try_encodings fs file_path keywords [] search_results =
     [error_record (Str ''Could not read '' @ file_path @ Str '' with available encodings'')
        file_path]"
| "try_encodings fs file_path keywords (encoding # rest) search_results =
     (case fs file_path encoding of
        (lines, end) \<Rightarrow>
          (let search_results' = scan_lines file_path keywords 1 lines search_results
           in case end of
                Eof \<Rightarrow> search_results'
              | Decode_Error \<Rightarrow> try_encodings fs file_path keywords rest search_results'
              | Other_Error \<Rightarrow>
                  [error_record (Str (''Error reading file with encoding '' @ encoding))
                     file_path]))"

definition encodings_to_try :: "string list" where
  "encodings_to_try = [''utf-8'', ''ISO-8859-1'', ''utf-16'']"

definition search_keywords_in_file :: "file_system \<Rightarrow> path \<Rightarrow> string list \<Rightarrow> pydict list" where
  "search_keywords_in_file fs file_path keywords =
     try_encodings fs file_path keywords encodings_to_try []"

fun file_level_failure :: "file_system \<Rightarrow> path \<Rightarrow> string list \<Rightarrow> pystr option" where
  \<comment> \<open>the reader fails for the file: every encoding ends in a decode error, or one ends
      in another exception before any has reached the end of the file; with the message\<close>
  "file_level_failure fs file_path [] =
     Some (Str ''Could not read '' @ file_path @ Str '' with available encodings'')"
| "file_level_failure fs file_path (encoding # rest) =
     (case snd (fs file_path encoding) of
        Eof \<Rightarrow> None
      | Decode_Error \<Rightarrow> file_level_failure fs file_path rest
      | Other_Error \<Rightarrow> Some (Str (''Error reading file with encoding '' @ encoding)))"

fun scan_files :: "file_system \<Rightarrow> string list \<Rightarrow> path list \<Rightarrow> pydict list \<Rightarrow> pydict list" where
  \<comment> \<open>\<open>for file_path in txt_files: all_search_results.extend(...)\<close>\<close>
  "scan_files fs keywords [] all_search_results = all_search_results"
| "scan_files fs keywords (file_path # rest) all_search_results =
     scan_files fs keywords rest
       (all_search_results @ search_keywords_in_file fs file_path keywords)"

section \<open>Result Writer: \<open>save_results\<close>\<close>

text \<open>
  The output file is opened with \<open>encoding='utf-8'\<close>. A call \<open>f.write(t)\<close> adds
  the text \<open>t\<close> to the file, unless \<open>t\<close> holds a lone surrogate: then the strict
  encoder raises \<open>UnicodeEncodeError\<close> and nothing of \<open>t\<close> is written. What was
  written before stays in the file, which the \<open>with\<close> statement closes.
\<close>

definition f_write :: "pystr \<Rightarrow> string option" where
  "f_write t = (if list_ex is_surrogate t then None else Some (map as_char t))"

fun text_of :: "pyval \<Rightarrow> pystr" where
  \<comment> \<open>\<open>str(v)\<close>: a value inside an f-string, and a cell of a csv row\<close>
  "text_of (PStr s) = Str s"
| "text_of (PInt i) = Str (str_int i)"
| "text_of (PLone t) = t"

text \<open>
  \<open>json.dump(search_results, f, ensure_ascii=False, indent=4)\<close> is the standard
  library's encoder: it produces the text in chunks and writes each chunk with
  \<open>f.write\<close>. For a list of dictionaries whose values are strings and integers the
  chunks are those below: a string between double quotes with the quote, the
  backslash and the control characters escaped (all other characters as they are), an
  integer in decimal, the items of a list or dictionary on lines of their own,
  indented by four spaces for each level, separated by a comma, and a key separated
  from its value by a colon and a space. A key, a separator and a value are chunks of
  their own.
\<close>

definition hex_digit :: "nat \<Rightarrow> char" where
  "hex_digit d = (if d < 10 then char_of (48 + d) else char_of (87 + d))"

definition escape_char :: "char \<Rightarrow> string" where
  "escape_char c =
     (if c = CHR 0x5C then [CHR 0x5C, CHR 0x5C]
      else if c = CHR 0x22 then [CHR 0x5C, CHR 0x22]
      else if c = CHR 0x08 then [CHR 0x5C, CHR ''b'']
      else if c = CHR 0x0C then [CHR 0x5C, CHR ''f'']
      else if c = CHR 0x0A then [CHR 0x5C, CHR ''n'']
      else if c = CHR 0x0D then [CHR 0x5C, CHR ''r'']
      else if c = CHR 0x09 then [CHR 0x5C, CHR ''t'']
      else if (of_char c :: nat) < 32
      then [CHR 0x5C, CHR ''u'', CHR ''0'', CHR ''0'',
            hex_digit ((of_char c :: nat) div 16), hex_digit ((of_char c :: nat) mod 16)]
      else [c])"

definition py_encode_basestring :: "string \<Rightarrow> string" where
  "py_encode_basestring s = [CHR 0x22] @ concat (map escape_char s) @ [CHR 0x22]"

fun escape_pychar :: "pychar \<Rightarrow> pystr" where
  "escape_pychar (Char c) = Str (escape_char c)"
| "escape_pychar (Surrogate b) = [Surrogate b]"

fun join :: "'a list \<Rightarrow> 'a list list \<Rightarrow> 'a list" where
  "join sep [] = []"
| "join sep [x] = x"
| "join sep (x # y # ys) = x @ sep @ join sep (y # ys)"

definition newline_indent :: "nat \<Rightarrow> string" where
  "newline_indent level = CHR 0x0A # replicate (4 * level) CHR '' ''"

fun json_value :: "pyval \<Rightarrow> pystr" where
  "json_value (PStr s) = Str (py_encode_basestring s)"
| "json_value (PInt i) = Str (str_int i)"
| "json_value (PLone t) = [Char CHR 0x22] @ concat (map escape_pychar t) @ [Char CHR 0x22]"

definition json_item :: "string \<times> pyval \<Rightarrow> pystr list" where
  "json_item kv = [Str (py_encode_basestring (fst kv)), Str '': '', json_value (snd kv)]"

definition json_dict :: "nat \<Rightarrow> pydict \<Rightarrow> pystr list" where
  "json_dict level d =
     (if d = [] then [Str ''{}'']
      else [Str ''{'', Str (newline_indent (level + 1))]
           @ join [Str ('','' @ newline_indent (level + 1))] (map json_item d)
           @ [Str (newline_indent level), Str ''}''])"

definition iterencode :: "pydict list \<Rightarrow> pystr list" where
  "iterencode ds =
     (if ds = [] then [Str ''[]'']
      else [Str (''['' @ newline_indent 1)]
           @ join [Str ('','' @ newline_indent 1)] (map (json_dict 1) ds)
           @ [Str (newline_indent 0), Str '']''])"

text \<open>
  What \<open>save_results\<close> leaves behind: the state of the output file, and the exception it
  caught, logged and printed, if any. It returns \<open>None\<close> to its caller in every case.
  A CSV file is kept as the rows handed to the \<open>csv\<close> writer, each a list of cells;
  the writer's quoting of a cell is the library's.
\<close>

datatype failure =
    Unsupported_Format
  | Extra_Fields "string list"
  | Missing_Key string
  | Encode_Error
  | IO_Error string

datatype file_content = Json_Text string | Csv_Rows "pyval list list" | Plain_Text string

datatype file_state = Not_Opened | Open_Failed | Written file_content

record save_outcome =
  output_file :: file_state
  caught :: "failure option"

fun write_all :: "pystr list \<Rightarrow> string \<times> failure option" where
  \<comment> \<open>\<open>for chunk in iterable: fp.write(chunk)\<close>: the text written, and the exception
      that ended the loop\<close>
  "write_all [] = ([], None)"
| "write_all (chunk # rest) =
     (case f_write chunk of
        None \<Rightarrow> ([], Some Encode_Error)
      | Some s \<Rightarrow> (case write_all rest of (text, e) \<Rightarrow> (s @ text, e)))"

definition fieldnames :: "string list" where
  "fieldnames = [''url'', ''username'', ''password'', ''source'', ''line'']"

definition dict_to_list :: "pydict \<Rightarrow> failure + pyval list" where
  \<comment> \<open>\<open>csv.DictWriter\<close>: a key outside the field names raises \<open>ValueError\<close>; a missing
      field is written as the empty string\<close>
  "dict_to_list rowdict =
     (let wrong_fields = filter (\<lambda>k. k \<notin> set fieldnames) (map fst rowdict)
      in if wrong_fields \<noteq> [] then Inl (Extra_Fields wrong_fields)
         else Inr (map (\<lambda>key. case map_of rowdict key of None \<Rightarrow> PStr [] | Some v \<Rightarrow> v)
                       fieldnames))"

definition writerow :: "pydict \<Rightarrow> failure + pyval list" where
  \<comment> \<open>\<open>writer.writerow(result)\<close>: the writer formats the cells of the row into one line
      and hands it to one \<open>f.write\<close>, which fails when a cell holds a lone surrogate\<close>
  "writerow rowdict =
     (case dict_to_list rowdict of
        Inl e \<Rightarrow> Inl e
      | Inr row \<Rightarrow>
          (case f_write (concat (map text_of row)) of
             None \<Rightarrow> Inl Encode_Error
           | Some line \<Rightarrow> Inr row))"

fun write_rows :: "pydict list \<Rightarrow> pyval list list \<times> failure option" where
  \<comment> \<open>the loop of the csv branch: the rows written, and the exception that ended it\<close>
  "write_rows [] = ([], None)"
| "write_rows (result # rest) =
     (if \<not> has_key ''error'' result
      then (case writerow result of
              Inl e \<Rightarrow> ([], Some e)
            | Inr row \<Rightarrow> (case write_rows rest of (rows, e) \<Rightarrow> (row # rows, e)))
      else write_rows rest)"

fun subscripts :: "pydict \<Rightarrow> string list \<Rightarrow> failure + pyval list" where
  \<comment> \<open>\<open>result[k]\<close> for each key in turn; the first missing key raises \<open>KeyError\<close>\<close>
  "subscripts result [] = Inr []"
| "subscripts result (k # ks) =
     (case map_of result k of
        None \<Rightarrow> Inl (Missing_Key k)
      | Some v \<Rightarrow> (case subscripts result ks of Inl e \<Rightarrow> Inl e | Inr vs \<Rightarrow> Inr (v # vs)))"

definition txt_line :: "pydict \<Rightarrow> failure + string" where
  \<comment> \<open>\<open>f.write(f"URL: ...")\<close>: the f-string is evaluated, then written\<close>
  "txt_line result =
     (case subscripts result [''url'', ''username'', ''password'', ''source'', ''line''] of
        Inr [url, username, password, source, line] \<Rightarrow>
          (case f_write (Str ''URL: '' @ text_of url @ Str '', Username: '' @ text_of username
                         @ Str '', Password: '' @ text_of password
                         @ Str '', Source: '' @ text_of source
                         @ Str '', Line: '' @ text_of line @ Str [CHR 0x0A]) of
             None \<Rightarrow> Inl Encode_Error
           | Some l \<Rightarrow> Inr l)
      | Inr other \<Rightarrow> Inr []
      | Inl e \<Rightarrow> Inl e)"

fun write_lines :: "pydict list \<Rightarrow> string \<times> failure option" where
  \<comment> \<open>the loop of the txt branch: the text written, and the exception that ended it\<close>
  "write_lines [] = ([], None)"
| "write_lines (result # rest) =
     (if \<not> has_key ''error'' result
      then (case txt_line result of
              Inl e \<Rightarrow> ([], Some e)
            | Inr l \<Rightarrow> (case write_lines rest of (text, e) \<Rightarrow> (l @ text, e)))
      else write_lines rest)"

definition with_open :: "string option \<Rightarrow> file_content \<times> failure option \<Rightarrow> save_outcome" where
  \<comment> \<open>\<open>with output_file.open('w', ...) as f\<close>: \<open>open_error\<close> is the text of the
      \<open>IOError\<close> that opening the output file raises, if it does\<close>
  "with_open open_error body =
     (case open_error of
        Some e \<Rightarrow> \<lparr>output_file = Open_Failed, caught = Some (IO_Error e)\<rparr>
      | None \<Rightarrow> \<lparr>output_file = Written (fst body), caught = snd body\<rparr>)"

definition save_results :: "string option \<Rightarrow> pydict list \<Rightarrow> string \<Rightarrow> save_outcome" where
  "save_results open_error search_results output_format =
     (if output_format = ''json''
      then with_open open_error
             (case write_all (iterencode search_results) of (text, e) \<Rightarrow> (Json_Text text, e))
      else if output_format = ''csv''
      then with_open open_error
             (case write_rows search_results of
                (rows, e) \<Rightarrow> (Csv_Rows (map PStr fieldnames # rows), e))
      else if output_format = ''txt''
      then with_open open_error
             (case write_lines search_results of (text, e) \<Rightarrow> (Plain_Text text, e))
      else \<lparr>output_file = Not_Opened, caught = Some Unsupported_Format\<rparr>)"

section \<open>The program: \<open>main\<close>\<close>

text \<open>
  The command line after \<open>Path(...).resolve()\<close>, and what the run finds outside the
  program: the state of the output path, the lines typed at the overwrite prompt, the
  state of the input path with the \<open>.txt\<close> files below it, the files' contents, and
  whether the output file can be opened. The resolved input path and the paths found
  below it may hold lone surrogates. The output path and the words typed on the
  command line are taken to hold none, so that the messages that quote them can be
  printed.
\<close>

record arguments =
  arg_path :: path
  arg_keywords :: "string list"
  arg_output :: string

record environment =
  output_exists :: bool
  output_is_dir :: bool
  output_parent_exists :: bool
  stdin :: "string list"
  path_is_file :: bool
  path_is_dir :: bool
  rglob_txt :: "path list"
  read_file :: file_system
  open_error :: "string option"

datatype message =
    Msg_Output_Is_Directory
  | Msg_Parent_Missing
  | Msg_Cancelled
  | Msg_Respond_Y_Or_N
  | Msg_Unsupported_Format
  | Msg_Not_Txt_Or_Directory
  | Msg_No_Txt_Files
  | Msg_Save_Failed failure
  | Msg_Saved

datatype validation = Valid | Invalid message | Exit_0 | Uncaught_EOFError

fun ask_overwrite :: "string list \<Rightarrow> validation \<times> message list" where
  \<comment> \<open>the \<open>while True\<close> loop around \<open>input(...)\<close>; at the end of the input
      \<open>input\<close> raises \<open>EOFError\<close>, which nothing catches\<close>
  "ask_overwrite [] = (Uncaught_EOFError, [])"
| "ask_overwrite (typed # rest) =
     (let response = str_lower (str_strip typed)
      in if response = ''y'' then (Valid, [])
         else if response = ''n'' then (Exit_0, [Msg_Cancelled])
         else (case ask_overwrite rest of (v, msgs) \<Rightarrow> (v, Msg_Respond_Y_Or_N # msgs)))"

definition validate_output_path :: "environment \<Rightarrow> validation \<times> message list" where
  "validate_output_path env =
     (if output_exists env
      then (if output_is_dir env then (Invalid Msg_Output_Is_Directory, [])
            else ask_overwrite (stdin env))
      else if \<not> output_parent_exists env then (Invalid Msg_Parent_Missing, [])
      else (Valid, []))"

definition path_name :: "string \<Rightarrow> string" where
  \<comment> \<open>the final component of a resolved path\<close>
  "path_name p = rev (takeWhile (\<lambda>c. c \<noteq> CHR ''/'') (rev p))"

definition path_suffix :: "string \<Rightarrow> string" where
  \<comment> \<open>\<open>Path.suffix\<close>: from the last dot of the name on, when that dot is neither the
      first nor the last character of the name\<close>
  "path_suffix p =
     (let name = path_name p;
          ext = rev (takeWhile (\<lambda>c. c \<noteq> CHR ''.'') (rev name))
      in if CHR ''.'' \<in> set name \<and> length ext + 1 < length name \<and> ext \<noteq> []
         then CHR ''.'' # ext else [])"

definition output_format_of :: "string \<Rightarrow> string" where
  \<comment> \<open>\<open>output_path.suffix.lstrip('.').lower()\<close>\<close>
  "output_format_of output_path =
     str_lower (dropWhile (\<lambda>c. c = CHR ''.'') (path_suffix output_path))"

datatype status = Exit int | Traceback

record run =
  status :: status
  console :: "message list"
  scanned :: "path list"
  results :: "pydict list"
  saved :: "save_outcome option"

definition stop :: "status \<Rightarrow> message list \<Rightarrow> run" where
  \<comment> \<open>the program ends before the scan: no file was scanned, \<open>save_results\<close> was not called\<close>
  "stop st msgs = \<lparr>status = st, console = msgs, scanned = [], results = [], saved = None\<rparr>"

definition scan_and_save :: "environment \<Rightarrow> arguments \<Rightarrow> string \<Rightarrow> message list \<Rightarrow> path list \<Rightarrow> run" where
  \<comment> \<open>\<open>main\<close> from \<open>if not txt_files\<close> on\<close>
  "scan_and_save env args output_format msgs txt_files =
     (if txt_files = [] then stop (Exit 0) (msgs @ [Msg_No_Txt_Files])
      else
        (let all_search_results = scan_files (read_file env) (arg_keywords args) txt_files [];
             outcome = save_results (open_error env) all_search_results output_format
         in \<lparr>status = Exit 0,
             console = msgs @ (case caught outcome of None \<Rightarrow> [] | Some e \<Rightarrow> [Msg_Save_Failed e])
                       @ [Msg_Saved],
             scanned = txt_files,
             results = all_search_results,
             saved = Some outcome\<rparr>))"

definition main :: "environment \<Rightarrow> arguments \<Rightarrow> run" where
  "main env args =
     (case validate_output_path env of
        (Invalid ve, msgs) \<Rightarrow> stop (Exit 1) (msgs @ [ve])
      | (Exit_0, msgs) \<Rightarrow> stop (Exit 0) msgs
      | (Uncaught_EOFError, msgs) \<Rightarrow> stop Traceback msgs
      | (Valid, msgs) \<Rightarrow>
          (let output_format = output_format_of (arg_output args)
           in if output_format \<notin> {''json'', ''csv'', ''txt''}
              then stop (Exit 1) (msgs @ [Msg_Unsupported_Format])
              else if path_is_file env \<and> path_suffix (map as_char (arg_path args)) = ''.txt''
              then scan_and_save env args output_format msgs [arg_path args]
              else if path_is_dir env
              then scan_and_save env args output_format msgs (rglob_txt env)
              else stop (Exit 1) (msgs @ [Msg_Not_Txt_Or_Directory])))"

section \<open>Notions used to state the properties\<close>

text \<open>
  The two kinds of token of the credential grammar: a host or username character is
  one that is neither whitespace, a colon nor a slash (\<open>[^\s:/]\<close>); a password
  character is one that is neither whitespace nor a slash (\<open>[^/\s]\<close>).
\<close>

definition token_char :: "char \<Rightarrow> bool" where
  "token_char c = (\<not> isspace c \<and> c \<noteq> CHR '':'' \<and> c \<noteq> CHR ''/'')"

definition password_char :: "char \<Rightarrow> bool" where
  "password_char c = (\<not> isspace c \<and> c \<noteq> CHR ''/'')"

fun port_part :: "string \<Rightarrow> bool" where
  \<comment> \<open>the optional port of a URL (\<open>(?:\:\d+)?\<close>): nothing, or a colon and one or more digits\<close>
  "port_part [] = True"
| "port_part (c # digits) = (c = CHR '':'' \<and> digits \<noteq> [] \<and> (\<forall>d \<in> set digits. isdecimal d))"

text \<open>The pattern in three parts: scheme, rest of the URL group, and what follows the group.\<close>

definition url_tail :: "rx list" where
  "url_tail =
     [Plus (Not_In [Cat_Space, Chr CHR '':'', Chr CHR ''/'']),
      Opt [Lit CHR '':'', Plus (In [Cat_Digit])],
      Opt [Lit CHR ''/'', Star (Not_In [Cat_Space])]]"

definition url_items :: "rx list" where
  "url_items =
     [Lit CHR ''h'', Lit CHR ''t'', Lit CHR ''t'', Lit CHR ''p'', Opt [Lit CHR ''s''],
      Lit CHR '':'', Lit CHR ''/'', Lit CHR ''/''] @ url_tail"

definition credential_tail :: "rx list" where
  "credential_tail =
     [Lit CHR '':'',
      Group [Plus (Not_In [Chr CHR '':'', Chr CHR ''/'', Cat_Space])],
      Lit CHR '':'',
      Group [Plus (Not_In [Chr CHR ''/'', Cat_Space])]]"

fun no_match_starts_in :: "string \<Rightarrow> string \<Rightarrow> bool" where
  \<comment> \<open>in \<open>pre @ s\<close> the pattern matches at no position of \<open>pre\<close>: the search reaches \<open>s\<close>\<close>
  "no_match_starts_in [] s = True"
| "no_match_starts_in (c # pre) s =
     (m_seq CREDENTIAL_PATTERN (c # pre @ s) = [] \<and> no_match_starts_in pre s)"

text \<open>
  At the overwrite prompt, a typed line that is neither \<open>y\<close> nor \<open>n\<close> after
  stripping and lower-casing leaves the question open.
\<close>

definition undecided :: "string \<Rightarrow> bool" where
  "undecided typed = (str_lower (str_strip typed) \<notin> {''y'', ''n''})"

text \<open>
  The two kinds of record of a scan result, as the data model of the specification
  names them, and the dictionary the program builds for each.
\<close>

datatype scan_record =
    MatchRecord string string string path int
  | ErrorRecord pystr path

fun dict_of :: "scan_record \<Rightarrow> pydict" where
  "dict_of (MatchRecord url username password source line) =
     match_record url username password source line"
| "dict_of (ErrorRecord error source) = error_record error source"

fun writable :: "scan_record \<Rightarrow> bool" where
  \<comment> \<open>a record that the csv and txt branches can write or skip: an error record, and a
      match record whose source can be encoded as UTF-8\<close>
  "writable (MatchRecord url username password source line) = (\<not> list_ex is_surrogate source)"
| "writable (ErrorRecord error source) = True"

fun csv_rows_of :: "scan_record \<Rightarrow> pyval list list" where
  \<comment> \<open>the data row of a match record; an error record has none\<close>
  "csv_rows_of (MatchRecord url username password source line) =
     [[PStr url, PStr username, PStr password, PStr (map as_char source), PInt line]]"
| "csv_rows_of (ErrorRecord error source) = []"

fun txt_of :: "scan_record \<Rightarrow> string" where
  \<comment> \<open>the formatted line of a match record; an error record has none\<close>
  "txt_of (MatchRecord url username password source line) =
     ''URL: '' @ url @ '', Username: '' @ username @ '', Password: '' @ password
     @ '', Source: '' @ map as_char source @ '', Line: '' @ str_int line @ [CHR 0x0A]"
| "txt_of (ErrorRecord error source) = []"

section \<open>Sample inputs\<close>

text \<open>
  Three files: \<open>a.txt\<close> and \<open>c.txt\<close> read well under the first encoding,
  \<open>b.txt\<close> cannot be opened.
\<close>

definition sample_fs :: file_system where
  "sample_fs file_path encoding =
     (if file_path = Str ''a.txt'' then ([''http://example.com:alice:pw1''], Eof)
      else if file_path = Str ''b.txt'' then ([], Other_Error)
      else ([''nothing here'', ''https://example.com/x:bob:pw2''], Eof))"

text \<open>
  A file of 8223 bytes in Latin-1: the line \<open>http://example.com:user:pass\<close>, then a
  line of 8192 letters \<open>x\<close> and the byte E9. Read as UTF-8, its first block of
  8192 bytes decodes and yields line 1; the next block holds the byte E9 before a line
  feed, which is not UTF-8, and the iteration raises \<open>UnicodeDecodeError\<close> there.
  Read as ISO-8859-1 the file yields its two lines.
\<close>

definition credential_line :: string where
  "credential_line = ''http://example.com:user:pass'' @ [CHR 0x0A]"

definition filler_line :: string where
  "filler_line = replicate 8192 CHR ''x'' @ [CHR 0xE9, CHR 0x0A]"

definition legacy_fs :: file_system where
  "legacy_fs file_path encoding =
     (if encoding = ''utf-8''
      then ([credential_line], Decode_Error)
      else if encoding = ''ISO-8859-1''
      then ([credential_line, filler_line], Eof)
      else ([], Other_Error))"

text \<open>
  A run that asks for the output \<open>/tmp/out.xml\<close>, a file that exists; at the prompt
  the user declines to overwrite it.
\<close>

definition xml_args :: arguments where
  "xml_args = \<lparr>arg_path = Str ''/data'', arg_keywords = [''example''], arg_output = ''/tmp/out.xml''\<rparr>"

definition declined_env :: environment where
  "declined_env =
     \<lparr>output_exists = True, output_is_dir = False, output_parent_exists = True,
      stdin = [''n''], path_is_file = False, path_is_dir = True,
      rglob_txt = [Str ''/data/a.txt''], read_file = sample_fs, open_error = None\<rparr>"

text \<open>The same request when \<open>/tmp/out.xml\<close> does not exist yet.\<close>

definition fresh_env :: environment where
  "fresh_env =
     \<lparr>output_exists = False, output_is_dir = False, output_parent_exists = True,
      stdin = [], path_is_file = False, path_is_dir = True,
      rglob_txt = [Str ''/data/a.txt''], read_file = sample_fs, open_error = None\<rparr>"

section \<open>Properties of the Pattern Matcher\<close>

declare re_search.simps [simp del]

lemma m_seq_Lit:
  "m_seq (Lit c # rs) s =
     (case s of [] \<Rightarrow> [] | x # xs \<Rightarrow> if lower_char x = lower_char c then m_seq rs xs else [])"
  by (cases s) simp_all

lemma m_seq_Group_Nil: "m_seq rs s = [] \<Longrightarrow> m_seq (Group rs # rs') s = []"
  by simp

lemma pattern_needs_h:
  "m_seq CREDENTIAL_PATTERN s \<noteq> [] \<Longrightarrow> \<exists>x xs. s = x # xs \<and> lower_char x = CHR ''h''"
proof (cases s)
  case Nil
  assume "m_seq CREDENTIAL_PATTERN s \<noteq> []"
  with Nil show ?thesis by (simp add: CREDENTIAL_PATTERN_def)
next
  case (Cons x xs)
  assume a: "m_seq CREDENTIAL_PATTERN s \<noteq> []"
  have "lower_char x = CHR ''h''"
  proof (rule ccontr)
    assume "lower_char x \<noteq> CHR ''h''"
    then have "lower_char x \<noteq> lower_char CHR ''h''" by (simp add: lower_char_def)
    then have "m_seq CREDENTIAL_PATTERN (x # xs) = []"
      unfolding CREDENTIAL_PATTERN_def by (intro m_seq_Group_Nil) (simp add: m_seq_Lit)
    with a Cons show False by simp
  qed
  with Cons show ?thesis by simp
qed

lemma re_search_no_h:
  "\<forall>c \<in> set s. lower_char c \<noteq> CHR ''h'' \<Longrightarrow> re_search CREDENTIAL_PATTERN s = None"
proof (induction s)
  case Nil
  have "m_seq CREDENTIAL_PATTERN [] = []" using pattern_needs_h [of "[]"] by blast
  then show ?case by (simp add: re_search.simps [of _ "[]"])
next
  case (Cons c s)
  have "m_seq CREDENTIAL_PATTERN (c # s) = []"
    using pattern_needs_h [of "c # s"] Cons.prems by auto
  moreover have "re_search CREDENTIAL_PATTERN s = None" using Cons by simp
  ultimately show ?case by (simp add: re_search.simps [of _ "c # s"])
qed

lemma credential_search_no_h:
  "\<forall>c \<in> set s. lower_char c \<noteq> CHR ''h'' \<Longrightarrow> credential_search s = None"
  by (simp add: credential_search_def re_search_no_h)

lemma map_case_prod_id: "map (\<lambda>(g2, s2). ([] @ g2, s2)) xs = xs"
  by (induction xs) auto

lemma m_seq_Plus:
  "m_seq (Plus cs # rs) s =
     concat (map (\<lambda>n. m_seq rs (drop n s)) (rev [1 ..< Suc (length (takeWhile (in_cset cs) s))]))"
  by (simp add: map_case_prod_id comp_def rev_map [symmetric])

lemma m_seq_Star:
  "m_seq (Star cs # rs) s =
     concat (map (\<lambda>n. m_seq rs (drop n s)) (rev [0 ..< Suc (length (takeWhile (in_cset cs) s))]))"
  by (simp add: map_case_prod_id comp_def rev_map [symmetric])

lemma m_seq_Opt:
  "m_seq (Opt os # rs) s =
     concat (map (\<lambda>(g1, s1). map (\<lambda>(g2, s2). (g1 @ g2, s2)) (m_seq rs s1)) (m_seq os s))
     @ m_seq rs s"
  by (simp add: map_case_prod_id)

lemma m_seq_Group:
  "m_seq (Group gs # rs) s =
     concat (map (\<lambda>(g1, s1). map (\<lambda>(g2, s2). ((take (length s - length s1) s # g1) @ g2, s2))
                                (m_seq rs s1)) (m_seq gs s))"
  by (simp add: comp_def case_prod_unfold)

lemma rev_upt_split:
  "a \<le> k \<Longrightarrow> k \<le> L \<Longrightarrow> rev [a ..< Suc L] = rev [Suc k ..< Suc L] @ k # rev [a ..< k]"
proof -
  assume "a \<le> k" "k \<le> L"
  then have "[a ..< Suc L] = [a ..< k] @ [k ..< Suc L]"
    using upt_add_eq_append [of a k "Suc L - k"] by simp
  moreover have "[k ..< Suc L] = k # [Suc k ..< Suc L]"
    using \<open>k \<le> L\<close> by (simp add: upt_conv_Cons)
  ultimately show ?thesis by simp
qed

lemma takeWhile_run:
  "\<forall>x \<in> set xs. P x \<Longrightarrow> rest = [] \<or> \<not> P (hd rest) \<Longrightarrow> takeWhile P (xs @ rest) = xs"
  by (cases rest) (simp_all add: takeWhile_append2 takeWhile_tail)

lemma of_char_lower_char:
  "(of_char (lower_char c) :: nat) =
     (if (65 \<le> (of_char c :: nat) \<and> (of_char c :: nat) \<le> 90)
         \<or> (192 \<le> (of_char c :: nat) \<and> (of_char c :: nat) \<le> 222 \<and> (of_char c :: nat) \<noteq> 215)
      then of_char c + 32 else of_char c)"
  by (auto simp: lower_char_def Let_def)

lemma lower_char_eq_colon [simp]: "lower_char x = lower_char CHR '':'' \<longleftrightarrow> x = CHR '':''"
proof -
  have "lower_char x = lower_char CHR '':'' \<longleftrightarrow>
        (of_char (lower_char x) :: nat) = of_char (lower_char CHR '':'')"
    by (simp only: of_char_eq_iff)
  also have "\<dots> \<longleftrightarrow> (of_char x :: nat) = of_char CHR '':''"
    by (simp add: of_char_lower_char)
  also have "\<dots> \<longleftrightarrow> x = CHR '':''"
    by (simp only: of_char_eq_iff)
  finally show ?thesis .
qed

lemma lower_char_eq_slash [simp]: "lower_char x = lower_char CHR ''/'' \<longleftrightarrow> x = CHR ''/''"
proof -
  have "lower_char x = lower_char CHR ''/'' \<longleftrightarrow>
        (of_char (lower_char x) :: nat) = of_char (lower_char CHR ''/'')"
    by (simp only: of_char_eq_iff)
  also have "\<dots> \<longleftrightarrow> (of_char x :: nat) = of_char CHR ''/''"
    by (simp add: of_char_lower_char)
  also have "\<dots> \<longleftrightarrow> x = CHR ''/''"
    by (simp only: of_char_eq_iff)
  finally show ?thesis .
qed

lemma CREDENTIAL_PATTERN_parts: "CREDENTIAL_PATTERN = Group url_items # credential_tail"
  by (simp add: CREDENTIAL_PATTERN_def url_items_def url_tail_def credential_tail_def)

lemma in_cset_host [simp]:
  "in_cset (Not_In [Cat_Space, Chr CHR '':'', Chr CHR ''/'']) = token_char"
  by (auto simp: token_char_def fun_eq_iff)

lemma in_cset_user [simp]:
  "in_cset (Not_In [Chr CHR '':'', Chr CHR ''/'', Cat_Space]) = token_char"
  by (auto simp: token_char_def fun_eq_iff)

lemma in_cset_password [simp]:
  "in_cset (Not_In [Chr CHR ''/'', Cat_Space]) = password_char"
  by (auto simp: password_char_def fun_eq_iff)

lemma in_cset_digit [simp]: "in_cset (In [Cat_Digit]) = isdecimal"
  by (auto simp: fun_eq_iff)

lemma in_cset_nonspace [simp]: "in_cset (Not_In [Cat_Space]) = (\<lambda>c. \<not> isspace c)"
  by (auto simp: fun_eq_iff)

lemma concat_map_singleton: "concat (map (\<lambda>(g1, s1). [(g1, s1)]) xs) = xs"
  by (induction xs) auto

lemma m_seq_single: "m_seq [r] s = m_rx r s"
  by (simp add: concat_map_singleton)

lemma m_seq_Group_Plus_hd:
  assumes "takeWhile (in_cset cs) s = tok" and "tok \<noteq> []"
    and "m_seq rs (drop (length tok) s) = (g, r) # X"
  shows "\<exists>Y. m_seq (Group [Plus cs] # rs) s = (tok # g, r) # Y"
proof -
  have tok: "take (length tok) s = tok"
    using assms(1) by (metis takeWhile_eq_take length_takeWhile_le take_all_iff takeWhile_eq_take)
  have len: "length tok \<le> length s"
    using assms(1) length_takeWhile_le by metis
  have "rev [1 ..< Suc (length tok)] = length tok # rev [1 ..< length tok]"
    using assms(2) by (cases tok) simp_all
  then have "m_seq [Plus cs] s =
      ([], drop (length tok) s) # map (\<lambda>n. ([], drop n s)) (rev [1 ..< length tok])"
    using assms(1) by (simp only: m_seq_single m_rx.simps list.map)
  then show ?thesis
    using assms(3) tok len by (simp add: m_seq_Group)
qed

lemma credential_tail_hd:
  assumes "user \<noteq> []" and "\<forall>c \<in> set user. token_char c"
    and "pw \<noteq> []" and "\<forall>c \<in> set pw. password_char c"
    and "rest = [] \<or> \<not> password_char (hd rest)"
  shows "\<exists>X. m_seq credential_tail (CHR '':'' # user @ CHR '':'' # pw @ rest) =
             ([user, pw], rest) # X"
proof -
  have p: "takeWhile (in_cset (Not_In [Chr CHR ''/'', Cat_Space])) (pw @ rest) = pw"
    by (simp only: in_cset_password takeWhile_run [OF assms(4,5)])
  have "m_seq [] (drop (length pw) (pw @ rest)) = [([], rest)]" by simp
  from m_seq_Group_Plus_hd [OF p assms(3) this]
  obtain Y where Y: "m_seq [Group [Plus (Not_In [Chr CHR ''/'', Cat_Space])]] (pw @ rest) =
      ([pw], rest) # Y" by blast
  have "CHR '':'' # pw @ rest = [] \<or> \<not> token_char (hd (CHR '':'' # pw @ rest))"
    by (simp add: token_char_def)
  then have u: "takeWhile (in_cset (Not_In [Chr CHR '':'', Chr CHR ''/'', Cat_Space]))
                  (user @ CHR '':'' # pw @ rest) = user"
    by (simp only: in_cset_user takeWhile_run [OF assms(2)])
  have "m_seq [Lit CHR '':'', Group [Plus (Not_In [Chr CHR ''/'', Cat_Space])]]
          (drop (length user) (user @ CHR '':'' # pw @ rest)) = ([pw], rest) # Y"
    using Y by (simp add: m_seq_Lit)
  from m_seq_Group_Plus_hd [OF u assms(1) this]
  obtain Z where "m_seq (Group [Plus (Not_In [Chr CHR '':'', Chr CHR ''/'', Cat_Space])]
                    # [Lit CHR '':'', Group [Plus (Not_In [Chr CHR ''/'', Cat_Space])]])
                   (user @ CHR '':'' # pw @ rest) = ([user, pw], rest) # Z" by blast
  then show ?thesis by (simp add: credential_tail_def m_seq_Lit)
qed

lemma credential_tail_needs:
  assumes "m_seq credential_tail r \<noteq> []"
  shows "\<exists>u t. r = CHR '':'' # u @ CHR '':'' # t \<and> u \<noteq> [] \<and> (\<forall>c \<in> set u. token_char c)"
proof -
  let ?K2 = "[Lit CHR '':'', Group [Plus (Not_In [Chr CHR ''/'', Cat_Space])]]"
  let ?U = "Not_In [Chr CHR '':'', Chr CHR ''/'', Cat_Space]"
  from assms obtain r1 where r: "r = CHR '':'' # r1"
    and k1: "m_seq (Group [Plus ?U] # ?K2) r1 \<noteq> []"
    by (cases r) (auto simp: credential_tail_def m_seq_Lit split: if_splits)
  from k1 obtain g1 s1 where m: "(g1, s1) \<in> set (m_seq [Plus ?U] r1)" and k2: "m_seq ?K2 s1 \<noteq> []"
    by (auto simp: m_seq_Group simp del: m_seq.simps m_rx.simps)
  from m obtain n where n: "1 \<le> n" "n \<le> length (takeWhile token_char r1)" and s1: "s1 = drop n r1"
    by (auto simp: m_seq_single)
  from k2 obtain t where t: "s1 = CHR '':'' # t"
    by (cases s1) (auto simp: m_seq_Lit split: if_splits)
  have nl: "n \<le> length r1" using n(2) length_takeWhile_le [of token_char r1] by linarith
  have "take n r1 = take n (takeWhile token_char r1)"
    using n(2) by (metis takeWhile_dropWhile_id take_append append_Nil2 diff_is_0_eq take_0)
  then have tk: "\<forall>c \<in> set (take n r1). token_char c"
    by (metis in_set_takeD set_takeWhileD)
  have "r1 = take n r1 @ CHR '':'' # t" using s1 t by (metis append_take_drop_id)
  moreover have "take n r1 \<noteq> []" using n(1) nl by (cases r1) auto
  ultimately show ?thesis using r tk by blast
qed

lemma m_seq_Group_first:
  assumes "m_seq gs s = A @ (g1, s1) # B"
    and "\<forall>a \<in> set A. m_seq rs (snd a) = []"
    and "m_seq rs s1 = (g2, s2) # C"
  shows "\<exists>Y. m_seq (Group gs # rs) s = ((take (length s - length s1) s # g1) @ g2, s2) # Y"
proof -
  let ?F = "\<lambda>(g1, s1). map (\<lambda>(g2, s2). ((take (length s - length s1) s # g1) @ g2, s2))
                              (m_seq rs s1)"
  have "concat (map ?F A) = []"
    using assms(2) by (induction A) auto
  then have "m_seq (Group gs # rs) s = ?F (g1, s1) @ concat (map ?F B)"
    by (simp only: m_seq_Group assms(1) map_append concat_append list.map concat.simps) simp
  then show ?thesis using assms(3) by simp
qed

lemma length_filter_drop_le: "length (filter P (drop n xs)) \<le> length (filter P xs)"
proof -
  have "filter P xs = filter P (take n xs) @ filter P (drop n xs)"
    by (metis append_take_drop_id filter_append)
  then show ?thesis by simp
qed

lemma not_isspace_colon: "\<not> isspace CHR '':''"
  by (simp add: isspace_def)

lemma token_char_nonspace: "token_char c \<Longrightarrow> \<not> isspace c"
  by (simp add: token_char_def)

lemma token_char_not_colon: "token_char c \<Longrightarrow> c \<noteq> CHR '':''"
  by (simp add: token_char_def)

lemma credential_tail_fails:
  assumes "\<forall>c \<in> set user. token_char c" and "\<forall>c \<in> set pw. token_char c"
    and "rest = [] \<or> isspace (hd rest)" and "1 \<le> j"
  shows "m_seq credential_tail (drop j (CHR '':'' # user @ CHR '':'' # pw) @ rest) = []"
proof (rule ccontr)
  let ?w = "user @ CHR '':'' # pw"
  let ?r = "drop j (CHR '':'' # ?w) @ rest"
  let ?colons = "\<lambda>s. length (filter (\<lambda>c. c = CHR '':'') (takeWhile (\<lambda>c. \<not> isspace c) s))"
  assume "m_seq credential_tail ?r \<noteq> []"
  then obtain u t where r: "?r = CHR '':'' # u @ CHR '':'' # t" and u: "\<forall>c \<in> set u. token_char c"
    using credential_tail_needs by blast
  have nsu: "\<And>c. c \<in> set (CHR '':'' # u @ [CHR '':'']) \<Longrightarrow> \<not> isspace c"
    using u not_isspace_colon token_char_nonspace by auto
  have "takeWhile (\<lambda>c. \<not> isspace c) ((CHR '':'' # u @ [CHR '':'']) @ t) =
               (CHR '':'' # u @ [CHR '':'']) @ takeWhile (\<lambda>c. \<not> isspace c) t"
    by (rule takeWhile_append2) (rule nsu)
  then have two: "2 \<le> ?colons ?r" using r by simp
  have ns: "\<forall>c \<in> set ?w. \<not> isspace c"
    using assms(1,2) not_isspace_colon token_char_nonspace by auto
  obtain j' where j: "j = Suc j'" using assms(4) by (cases j) auto
  have d: "drop j (CHR '':'' # ?w) = drop j' ?w" using j by simp
  have "\<forall>c \<in> set (drop j' ?w). \<not> isspace c" using ns by (meson in_set_dropD)
  moreover have "rest = [] \<or> \<not> \<not> isspace (hd rest)" using assms(3) by simp
  ultimately have "takeWhile (\<lambda>c. \<not> isspace c) (drop j' ?w @ rest) = drop j' ?w"
    by (rule takeWhile_run)
  then have "?colons ?r = length (filter (\<lambda>c. c = CHR '':'') (drop j' ?w))" using d by simp
  also have "\<dots> \<le> length (filter (\<lambda>c. c = CHR '':'') ?w)" by (rule length_filter_drop_le)
  also have "\<dots> = 1"
  proof -
    have "filter (\<lambda>c. c = CHR '':'') user = []" "filter (\<lambda>c. c = CHR '':'') pw = []"
      using assms(1,2) token_char_not_colon by (auto simp: filter_empty_conv)
    then show ?thesis by simp
  qed
  finally show False using two by simp
qed

lemma lower_lits:
  "lower_char CHR ''h'' = CHR ''h''" "lower_char CHR ''t'' = CHR ''t''"
  "lower_char CHR ''p'' = CHR ''p''" "lower_char CHR ''s'' = CHR ''s''"
  "lower_char CHR '':'' = CHR '':''" "lower_char CHR ''/'' = CHR ''/''"
  by (simp_all add: lower_char_def)

lemma lower_char_is_colon: "lower_char x = CHR '':'' \<longleftrightarrow> x = CHR '':''"
  using lower_char_eq_colon [of x] by (simp add: lower_lits)

lemma lower_char_is_slash: "lower_char x = CHR ''/'' \<longleftrightarrow> x = CHR ''/''"
  using lower_char_eq_slash [of x] by (simp add: lower_lits)

lemma scheme_match:
  assumes "str_lower scheme = ''http'' \<or> str_lower scheme = ''https''"
  shows "m_seq url_items (scheme @ ''://'' @ s0) = m_seq url_tail s0"
proof -
  from assms consider
    (http) a b c d where "scheme = [a, b, c, d]" "lower_char a = CHR ''h''"
      "lower_char b = CHR ''t''" "lower_char c = CHR ''t''" "lower_char d = CHR ''p''"
  | (https) a b c d e where "scheme = [a, b, c, d, e]" "lower_char a = CHR ''h''"
      "lower_char b = CHR ''t''" "lower_char c = CHR ''t''" "lower_char d = CHR ''p''"
      "lower_char e = CHR ''s''"
    by (auto simp: str_lower_def map_eq_Cons_conv)
  then show ?thesis
  proof cases
    case http
    then show ?thesis
      by (simp add: url_items_def m_seq_Lit m_seq_Opt lower_lits lower_char_is_colon
          lower_char_is_slash del: m_seq.simps(2))
  next
    case https
    then show ?thesis
      by (simp add: url_items_def m_seq_Lit m_seq_Opt lower_lits lower_char_is_colon
          lower_char_is_slash map_case_prod_id del: m_seq.simps(2))
  qed
qed

lemma m_seq_Plus_first:
  assumes "takeWhile (in_cset cs) s = tok" and "tok \<noteq> []"
  shows "\<exists>X. m_seq (Plus cs # rs) s = m_seq rs (drop (length tok) s) @ X"
proof -
  have "rev [1 ..< Suc (length tok)] = length tok # rev [1 ..< length tok]"
    using assms(2) by (cases tok) simp_all
  then show ?thesis
    by (simp only: m_seq_Plus assms(1) list.map concat.simps) blast
qed

lemma not_token_char_colon: "\<not> token_char CHR '':''"
  by (simp add: token_char_def)

lemma not_isdecimal_slash: "\<not> isdecimal CHR ''/''"
  by (simp add: isdecimal_def)

lemma not_isdecimal_colon: "\<not> isdecimal CHR '':''"
  by (simp add: isdecimal_def)

lemma opt_path_slash:
  "m_seq [Opt [Lit CHR ''/'', Star (Not_In [Cat_Space])]] (CHR ''/'' # t) =
     map (\<lambda>n. ([], drop n t)) (rev [0 ..< Suc (length (takeWhile (\<lambda>c. \<not> isspace c) t))])
     @ [([], CHR ''/'' # t)]"
  by (simp only: m_seq_single m_rx.simps(4) m_seq_Lit list.case lower_char_eq_slash
      simp_thms if_True m_rx.simps(3) in_cset_nonspace)

lemma opt_path_other:
  "c \<noteq> CHR ''/'' \<Longrightarrow>
   m_seq [Opt [Lit CHR ''/'', Star (Not_In [Cat_Space])]] (c # t) = [([], c # t)]"
  by (simp only: m_seq_single m_rx.simps(4) m_seq_Lit list.case lower_char_eq_slash
      simp_thms if_False append_Nil)

lemma m_seq_Opt_first:
  assumes "m_seq os s = ([], s1) # Y"
  shows "\<exists>X. m_seq (Opt os # rs) s = m_seq rs s1 @ X"
proof -
  have "m_seq (Opt os # rs) s =
          m_seq rs s1 @ (concat (map (\<lambda>(g1, s1). map (\<lambda>(g2, s2). (g1 @ g2, s2)) (m_seq rs s1)) Y)
                         @ m_seq rs s)"
    by (simp only: m_seq_Opt assms list.map concat.simps prod.case map_case_prod_id append_assoc)
  then show ?thesis by blast
qed

lemma opt_port_first:
  assumes "port \<noteq> []" and "\<forall>c \<in> set port. isdecimal c"
  shows "\<exists>X. m_seq (Opt [Lit CHR '':'', Plus (In [Cat_Digit])] # rs) (CHR '':'' # port @ CHR ''/'' # t)
             = m_seq rs (CHR ''/'' # t) @ X"
proof -
  have "CHR ''/'' # t = [] \<or> \<not> isdecimal (hd (CHR ''/'' # t))"
    by (simp add: not_isdecimal_slash)
  then have "takeWhile (in_cset (In [Cat_Digit])) (port @ CHR ''/'' # t) = port"
    by (simp only: in_cset_digit takeWhile_run [OF assms(2)])
  from m_seq_Plus_first [OF this assms(1), of "[]"]
  obtain Y where "m_seq [Plus (In [Cat_Digit])] (port @ CHR ''/'' # t) = ([], CHR ''/'' # t) # Y"
    by auto
  then have "m_seq [Lit CHR '':'', Plus (In [Cat_Digit])] (CHR '':'' # port @ CHR ''/'' # t) =
               ([], CHR ''/'' # t) # Y"
    by (simp add: m_seq_Lit del: m_seq.simps(2))
  then show ?thesis by (rule m_seq_Opt_first)
qed

lemma url_tail_port_path:
  assumes "host \<noteq> []" and "\<forall>c \<in> set host. token_char c"
    and "port \<noteq> []" and "\<forall>c \<in> set port. isdecimal c"
  shows "\<exists>X. m_seq url_tail (host @ CHR '':'' # port @ CHR ''/'' # t) =
           map (\<lambda>n. ([], drop n t)) (rev [0 ..< Suc (length (takeWhile (\<lambda>c. \<not> isspace c) t))])
           @ X"
proof -
  let ?s = "CHR '':'' # port @ CHR ''/'' # t"
  let ?rs = "[Opt [Lit CHR '':'', Plus (In [Cat_Digit])],
              Opt [Lit CHR ''/'', Star (Not_In [Cat_Space])]]"
  have "?s = [] \<or> \<not> token_char (hd ?s)" by (simp add: not_token_char_colon)
  then have "takeWhile (in_cset (Not_In [Cat_Space, Chr CHR '':'', Chr CHR ''/''])) (host @ ?s) = host"
    by (simp only: in_cset_host takeWhile_run [OF assms(2)])
  from m_seq_Plus_first [OF this assms(1), of ?rs]
  obtain X1 where "m_seq (Plus (Not_In [Cat_Space, Chr CHR '':'', Chr CHR ''/'']) # ?rs) (host @ ?s) =
      m_seq ?rs (drop (length host) (host @ ?s)) @ X1"
    by blast
  moreover have "drop (length host) (host @ ?s) = ?s" by simp
  ultimately have 1: "m_seq url_tail (host @ ?s) = m_seq ?rs ?s @ X1"
    by (simp only: url_tail_def)
  from opt_port_first [OF assms(3,4)]
  obtain X2 where 2: "m_seq ?rs ?s =
      m_seq [Opt [Lit CHR ''/'', Star (Not_In [Cat_Space])]] (CHR ''/'' # t) @ X2"
    by blast
  show ?thesis
    by (simp only: 1 2 opt_path_slash append_assoc) blast
qed

lemma re_search_skip:
  "no_match_starts_in pre s \<Longrightarrow>
   re_search CREDENTIAL_PATTERN (pre @ s) = re_search CREDENTIAL_PATTERN s"
proof (induction pre)
  case Nil
  then show ?case by simp
next
  case (Cons c pre)
  then show ?case by (simp add: re_search.simps [of _ "c # pre @ s"])
qed

lemma credential_search_hd:
  assumes "no_match_starts_in pre s"
    and "m_seq CREDENTIAL_PATTERN s = ([url, u, pw], r) # X"
  shows "credential_search (pre @ s) = Some (url, u, pw)"
  using assms(2) by (simp add: credential_search_def re_search_skip [OF assms(1)] re_search.simps [of _ s])

lemma token_char_password_char: "token_char c \<Longrightarrow> password_char c"
  by (simp add: token_char_def password_char_def)

text \<open>
  C2, as amended. The text \<open>http://host:port/path:user:pass\<close> itself yields no
  extraction, since \<open>port\<close> is not a number, and with a password that holds a colon
  the URL group takes the text up to the last two colons. What holds: when the port is
  a non-empty string of decimal digits, the host is a non-empty token, the path holds no
  whitespace, the username and the password are non-empty tokens (no whitespace, colon
  or slash), the credential is followed by the end of the line or by whitespace, and
  no match of the pattern starts before it, then the Pattern Matcher extracts exactly
  the URL \<open>scheme://host:port/path\<close>, the username and the password. The scheme is
  \<open>http\<close> or \<open>https\<close> in any letter case.
\<close>

theorem credential_search_url_port_path:
  assumes scheme: "str_lower scheme = ''http'' \<or> str_lower scheme = ''https''"
    and host: "host \<noteq> []" "\<forall>c \<in> set host. token_char c"
    and port: "port \<noteq> []" "\<forall>c \<in> set port. isdecimal c"
    and path: "\<forall>c \<in> set path. \<not> isspace c"
    and user: "user \<noteq> []" "\<forall>c \<in> set user. token_char c"
    and pw: "pw \<noteq> []" "\<forall>c \<in> set pw. token_char c"
    and rest: "rest = [] \<or> isspace (hd rest)"
    and pre: "no_match_starts_in pre
                (scheme @ ''://'' @ host @ '':'' @ port @ ''/'' @ path @ '':'' @ user @ '':'' @ pw @ rest)"
  shows "credential_search
           (pre @ scheme @ ''://'' @ host @ '':'' @ port @ ''/'' @ path @ '':'' @ user @ '':'' @ pw @ rest)
         = Some (scheme @ ''://'' @ host @ '':'' @ port @ ''/'' @ path, user, pw)"
proof -
  define w where "w = CHR '':'' # user @ CHR '':'' # pw"
  define t where "t = path @ w @ rest"
  define k where "k = length path"
  define L where "L = length path + length w"
  define f where "f = (\<lambda>n. ([] :: string list, drop n t))"
  define input where "input = scheme @ ''://'' @ host @ CHR '':'' # port @ CHR ''/'' # t"
  define url where "url = scheme @ ''://'' @ host @ CHR '':'' # port @ CHR ''/'' # path"
  have ns: "\<forall>c \<in> set (path @ w). \<not> isspace c"
    using path user(2) pw(2) not_isspace_colon token_char_nonspace by (auto simp: w_def)
  have "rest = [] \<or> \<not> \<not> isspace (hd rest)" using rest by simp
  with ns have "takeWhile (\<lambda>c. \<not> isspace c) ((path @ w) @ rest) = path @ w"
    by (rule takeWhile_run)
  then have run: "length (takeWhile (\<lambda>c. \<not> isspace c) t) = L" by (simp add: t_def L_def)
  from url_tail_port_path [OF host port, of t] obtain X where
    tail0: "m_seq url_tail (host @ CHR '':'' # port @ CHR ''/'' # t) = map f (rev [0 ..< Suc L]) @ X"
    unfolding run f_def by blast
  have "rev [0 ..< Suc L] = rev [Suc k ..< Suc L] @ k # rev [0 ..< k]"
    by (rule rev_upt_split) (simp_all add: k_def L_def)
  then have "map f (rev [0 ..< Suc L]) @ X =
               map f (rev [Suc k ..< Suc L]) @ f k # (map f (rev [0 ..< k]) @ X)"
    by simp
  moreover have "f k = ([], w @ rest)" by (simp add: f_def k_def t_def)
  ultimately have cands: "m_seq url_items input =
      map f (rev [Suc k ..< Suc L]) @ ([], w @ rest) # (map f (rev [0 ..< k]) @ X)"
    by (simp only: input_def scheme_match [OF scheme] tail0)
  have fails: "\<forall>a \<in> set (map f (rev [Suc k ..< Suc L])). m_seq credential_tail (snd a) = []"
  proof
    fix a assume "a \<in> set (map f (rev [Suc k ..< Suc L]))"
    then obtain n where nin: "n \<in> set [Suc k ..< Suc L]" and an: "a = f n" by auto
    from nin have n: "k < n" "n \<le> L" by auto
    from an have a: "a = ([], drop n t)" by (simp add: f_def)
    have "drop n t = drop (n - k) w @ rest" using n by (simp add: t_def k_def L_def)
    moreover have "m_seq credential_tail (drop (n - k) (CHR '':'' # user @ CHR '':'' # pw) @ rest) = []"
      using n by (intro credential_tail_fails user pw rest) simp
    ultimately show "m_seq credential_tail (snd a) = []" using a by (simp add: w_def)
  qed
  have "rest = [] \<or> \<not> password_char (hd rest)"
    using rest by (auto simp: password_char_def)
  from credential_tail_hd [OF user _ _ this, of pw] pw token_char_password_char
  obtain C where tail: "m_seq credential_tail (w @ rest) = ([user, pw], rest) # C"
    by (auto simp: w_def)
  from m_seq_Group_first [OF cands fails tail]
  obtain Y where "m_seq (Group url_items # credential_tail) input =
      ((take (length input - length (w @ rest)) input # []) @ [user, pw], rest) # Y"
    by blast
  moreover have "take (length input - length (w @ rest)) input = url"
  proof -
    have "input = url @ (w @ rest)" by (simp add: input_def url_def t_def)
    then show ?thesis by simp
  qed
  ultimately have "m_seq CREDENTIAL_PATTERN input = ([url, user, pw], rest) # Y"
    by (simp add: CREDENTIAL_PATTERN_parts del: m_seq.simps(2))
  moreover have "scheme @ ''://'' @ host @ '':'' @ port @ ''/'' @ path @ '':'' @ user @ '':'' @ pw @ rest
                  = input"
    by (simp add: input_def t_def w_def)
  moreover have "scheme @ ''://'' @ host @ '':'' @ port @ ''/'' @ path = url"
    by (simp add: url_def)
  ultimately show ?thesis using pre credential_search_hd by metis
qed

theorem credential_search_url_port_path_witness:
  "credential_search
     (''login '' @ ''http'' @ ''://'' @ ''host'' @ '':'' @ ''8080'' @ ''/'' @ ''path'' @ '':''
      @ ''user'' @ '':'' @ ''pass'' @ [CHR 0x0A])
   = Some (''http'' @ ''://'' @ ''host'' @ '':'' @ ''8080'' @ ''/'' @ ''path'', ''user'', ''pass'')"
  by (rule credential_search_url_port_path; code_simp)

theorem credential_search_url_port_path_counterexample:
  "credential_search ''http://host:port/path:user:pass'' = None
   \<and> credential_search ''http://host:8080/path:user:pa:ss'' =
       Some (''http://host:8080/path:user'', ''pa'', ''ss'')"
  by code_simp

lemma credential_tail_not_colon:
  "c \<noteq> CHR '':'' \<Longrightarrow> m_seq credential_tail (c # r) = []"
  by (simp add: credential_tail_def m_seq_Lit del: m_seq.simps(2))

lemma length_takeWhile_less:
  "\<exists>x \<in> set xs. \<not> P x \<Longrightarrow> length (takeWhile P xs) < length xs"
  by (induction xs) auto

lemma url_tail_bare:
  assumes "host \<noteq> []" and "\<forall>c \<in> set host. token_char c"
    and "\<forall>c \<in> set user. token_char c" and "\<exists>c \<in> set user. \<not> isdecimal c"
  shows "\<exists>A X. m_seq url_tail (host @ CHR '':'' # user @ CHR '':'' # t) =
                 A @ ([], CHR '':'' # user @ CHR '':'' # t) # X
               \<and> (\<forall>a \<in> set A. m_seq credential_tail (snd a) = [])"
proof -
  let ?s = "CHR '':'' # user @ CHR '':'' # t"
  let ?path = "[Opt [Lit CHR ''/'', Star (Not_In [Cat_Space])]]"
  let ?rs = "[Opt [Lit CHR '':'', Plus (In [Cat_Digit])],
              Opt [Lit CHR ''/'', Star (Not_In [Cat_Space])]]"
  let ?C = "\<lambda>(g1, s1). map (\<lambda>(g2, s2). (g1 @ g2, s2)) (m_seq ?path s1)"
  let ?present = "m_seq [Lit CHR '':'', Plus (In [Cat_Digit])] ?s"
  have "?s = [] \<or> \<not> token_char (hd ?s)" by (simp add: not_token_char_colon)
  then have "takeWhile (in_cset (Not_In [Cat_Space, Chr CHR '':'', Chr CHR ''/''])) (host @ ?s) = host"
    by (simp only: in_cset_host takeWhile_run [OF assms(2)])
  from m_seq_Plus_first [OF this assms(1), of ?rs]
  obtain X1 where "m_seq (Plus (Not_In [Cat_Space, Chr CHR '':'', Chr CHR ''/'']) # ?rs) (host @ ?s) =
      m_seq ?rs (drop (length host) (host @ ?s)) @ X1"
    by blast
  moreover have "drop (length host) (host @ ?s) = ?s" by simp
  ultimately have 1: "m_seq url_tail (host @ ?s) = m_seq ?rs ?s @ X1"
    by (simp only: url_tail_def)
  have 2: "m_seq ?rs ?s = concat (map ?C ?present) @ m_seq ?path ?s"
    by (rule m_seq_Opt)
  have 3: "m_seq ?path ?s = [([], ?s)]"
    by (rule opt_path_other) simp
  have d: "length (takeWhile isdecimal (user @ CHR '':'' # t)) < length user"
  proof -
    from assms(4) obtain x where "x \<in> set user" "\<not> isdecimal x" by blast
    then have "takeWhile isdecimal (user @ CHR '':'' # t) = takeWhile isdecimal user"
      by (rule takeWhile_append1)
    then show ?thesis using length_takeWhile_less [OF assms(4)] by simp
  qed
  have "\<forall>a \<in> set (concat (map ?C ?present)). m_seq credential_tail (snd a) = []"
  proof
    fix a assume "a \<in> set (concat (map ?C ?present))"
    then obtain g1 s1 where p: "(g1, s1) \<in> set ?present" and a: "a \<in> set (?C (g1, s1))"
      by auto
    from p have "(g1, s1) \<in> set (m_rx (Plus (In [Cat_Digit])) (user @ CHR '':'' # t))"
      by (simp add: m_seq_Lit m_seq_single del: m_seq.simps(2))
    then obtain n where n: "1 \<le> n" "n \<le> length (takeWhile isdecimal (user @ CHR '':'' # t))"
      and s1: "s1 = drop n (user @ CHR '':'' # t)"
      by auto
    from n d have nu: "n < length user" by simp
    then obtain c r where cr: "drop n user = c # r" by (cases "drop n user") auto
    then have "c \<in> set user" by (metis in_set_dropD list.set_intros(1))
    then have c: "token_char c" using assms(3) by blast
    have s1': "s1 = c # r @ CHR '':'' # t" using s1 nu cr by simp
    have "c \<noteq> CHR ''/''" using c by (simp add: token_char_def)
    then have "m_seq ?path s1 = [([], s1)]" unfolding s1' by (rule opt_path_other)
    with a have sa: "snd a = c # r @ CHR '':'' # t" unfolding s1' by auto
    have "c \<noteq> CHR '':''" using c by (simp add: token_char_def)
    then have "m_seq credential_tail (c # r @ CHR '':'' # t) = []"
      by (rule credential_tail_not_colon)
    then show "m_seq credential_tail (snd a) = []"
      by (simp only: sa)
  qed
  moreover have "m_seq url_tail (host @ ?s) = concat (map ?C ?present) @ ([], ?s) # X1"
    by (simp only: 1 2 3 append_assoc append_Cons append_Nil)
  ultimately show ?thesis by blast
qed

lemma bare_url_parse:
  assumes scheme: "str_lower scheme = ''http'' \<or> str_lower scheme = ''https''"
    and host: "host \<noteq> []" "\<forall>c \<in> set host. token_char c"
    and user: "user \<noteq> []" "\<forall>c \<in> set user. token_char c" "\<exists>c \<in> set user. \<not> isdecimal c"
    and pw: "pw \<noteq> []" "\<forall>c \<in> set pw. password_char c"
    and rest: "rest = [] \<or> \<not> password_char (hd rest)"
    and pre: "no_match_starts_in pre (scheme @ ''://'' @ host @ '':'' @ user @ '':'' @ pw @ rest)"
  shows "credential_search (pre @ scheme @ ''://'' @ host @ '':'' @ user @ '':'' @ pw @ rest)
         = Some (scheme @ ''://'' @ host, user, pw)"
proof -
  define t where "t = pw @ rest"
  define s where "s = CHR '':'' # user @ CHR '':'' # t"
  define input where "input = scheme @ ''://'' @ host @ s"
  define url where "url = scheme @ ''://'' @ host"
  from url_tail_bare [OF host user(2,3), of t] obtain A X where
    tail0: "m_seq url_tail (host @ s) = A @ ([], s) # X"
    and fails: "\<forall>a \<in> set A. m_seq credential_tail (snd a) = []"
    unfolding s_def by blast
  have cands: "m_seq url_items input = A @ ([], s) # X"
    by (simp only: input_def scheme_match [OF scheme] tail0)
  from credential_tail_hd [OF user(1,2) pw rest]
  obtain C where tail: "m_seq credential_tail s = ([user, pw], rest) # C"
    by (auto simp: s_def t_def)
  from m_seq_Group_first [OF cands fails tail]
  obtain Y where "m_seq (Group url_items # credential_tail) input =
      ((take (length input - length s) input # []) @ [user, pw], rest) # Y"
    by blast
  moreover have "take (length input - length s) input = url"
  proof -
    have "input = url @ s" by (simp add: input_def url_def)
    then show ?thesis by simp
  qed
  ultimately have "m_seq CREDENTIAL_PATTERN input = ([url, user, pw], rest) # Y"
    by (simp add: CREDENTIAL_PATTERN_parts del: m_seq.simps(2))
  moreover have "scheme @ ''://'' @ host @ '':'' @ user @ '':'' @ pw @ rest = input"
    by (simp add: input_def s_def t_def)
  ultimately show ?thesis using pre credential_search_hd unfolding url_def by metis
qed

lemma m_rx_suffix: "(g, r) \<in> set (m_rx x s) \<Longrightarrow> suffix r s"
  and m_seq_suffix: "(g, r) \<in> set (m_seq xs s) \<Longrightarrow> suffix r s"
proof (induction x s and xs s arbitrary: g r and g r rule: m_rx_m_seq.induct)
  case (1 c s)
  then show ?case by (cases s) (auto simp: suffix_def split: if_splits)
next
  case (2 cs s)
  then show ?case by (auto simp: suffix_drop)
next
  case (3 cs s)
  then show ?case by (auto simp: suffix_drop)
next
  case (4 rs s)
  then show ?case by auto
next
  case (5 rs s)
  then show ?case by auto
next
  case (6 s)
  then show ?case by simp
next
  case (7 r' rs s)
  from "7.prems" obtain g1 s1 g2 where a: "(g1, s1) \<in> set (m_rx r' s)"
    and b: "(g2, r) \<in> set (m_seq rs s1)"
    by auto
  from "7.IH"(1) [OF a] have "suffix s1 s" .
  moreover from "7.IH"(2) [OF a refl b] have "suffix r s1" .
  ultimately show ?case by (rule suffix_order.trans [rotated])
qed

lemma re_search_Some:
  "re_search p s = Some gs \<Longrightarrow> \<exists>pre s' r X. s = pre @ s' \<and> m_seq p s' = (gs, r) # X"
proof (induction s)
  case Nil
  then show ?case by (auto simp: re_search.simps [of p "[]"] split: list.splits)
next
  case (Cons c s)
  show ?case
  proof (cases "m_seq p (c # s)")
    case Nil
    with Cons.prems have "re_search p s = Some gs" by (simp add: re_search.simps [of p "c # s"])
    from Cons.IH [OF this] obtain pre s' r X where "s = pre @ s'" "m_seq p s' = (gs, r) # X"
      by blast
    then have "c # s = (c # pre) @ s'" "m_seq p s' = (gs, r) # X" by simp_all
    then show ?thesis by blast
  next
    case (Cons y ys)
    with Cons.prems have "m_seq p (c # s) = (gs, snd y) # ys"
      by (cases y) (simp add: re_search.simps [of p "c # s"])
    then have "c # s = [] @ (c # s)" "m_seq p (c # s) = (gs, snd y) # ys" by simp_all
    then show ?thesis by blast
  qed
qed

lemma concat_map_hd:
  "concat (map F xs) = y # ys \<Longrightarrow> \<exists>x \<in> set xs. \<exists>zs. F x = y # zs"
proof (induction xs)
  case Nil
  then show ?case by simp
next
  case (Cons x xs)
  then show ?case by (cases "F x") auto
qed

lemma concat_map_hd_pair:
  "concat (map (\<lambda>(a, b). F a b) xs) = y # ys \<Longrightarrow> \<exists>a b zs. (a, b) \<in> set xs \<and> F a b = y # zs"
proof (induction xs)
  case Nil
  then show ?case by simp
next
  case (Cons x xs)
  obtain a b where x: "x = (a, b)" by (cases x)
  show ?case
  proof (cases "F a b")
    case Nil
    with Cons x show ?thesis by auto
  next
    case (Cons z zs)
    with Cons.prems x have "F a b = y # zs" by simp
    with x show ?thesis by auto
  qed
qed

lemma group_plus_hd_shape:
  assumes "m_seq [Group [Plus cs]] s = (g, r) # Z"
  shows "g = [takeWhile (in_cset cs) s] \<and> r = dropWhile (in_cset cs) s
         \<and> takeWhile (in_cset cs) s \<noteq> []"
proof -
  let ?m = "length (takeWhile (in_cset cs) s)"
  let ?G = "\<lambda>(gs, rest). (take (length s - length rest) s # gs, rest)"
  have m: "m_seq [Group [Plus cs]] s = map ?G (map (\<lambda>n. ([], drop n s)) (rev [1 ..< Suc ?m]))"
    by (simp only: m_seq_single m_rx.simps)
  show ?thesis
  proof (cases "?m = 0")
    case True
    with m assms show ?thesis by simp
  next
    case False
    then have "rev [1 ..< Suc ?m] = ?m # rev [1 ..< ?m]"
      by (cases "takeWhile (in_cset cs) s") simp_all
    with m have "m_seq [Group [Plus cs]] s =
        ?G ([], drop ?m s) # map ?G (map (\<lambda>n. ([], drop n s)) (rev [1 ..< ?m]))"
      by (simp only: list.map)
    with assms have "(g, r) = ?G ([], drop ?m s)"
      by (simp only: list.inject)
    moreover have "?m \<le> length s" by (rule length_takeWhile_le)
    ultimately have "g = [take ?m s]" "r = drop ?m s" by simp_all
    then show ?thesis
      using False by (simp add: takeWhile_eq_take [symmetric] dropWhile_eq_drop [symmetric])
  qed
qed

lemma credential_tail_hd_shape:
  assumes "m_seq credential_tail s1 = (g2, r) # Z"
  shows "\<exists>u p. g2 = [u, p] \<and> s1 = CHR '':'' # u @ CHR '':'' # p @ r
           \<and> u \<noteq> [] \<and> (\<forall>c \<in> set u. token_char c)
           \<and> p \<noteq> [] \<and> (\<forall>c \<in> set p. password_char c)
           \<and> (r = [] \<or> \<not> password_char (hd r))"
proof -
  let ?U = "Not_In [Chr CHR '':'', Chr CHR ''/'', Cat_Space]"
  let ?P = "Not_In [Chr CHR ''/'', Cat_Space]"
  let ?K2 = "[Lit CHR '':'', Group [Plus ?P]]"
  from assms obtain s1' where s1: "s1 = CHR '':'' # s1'"
    and k1: "m_seq (Group [Plus ?U] # ?K2) s1' = (g2, r) # Z"
    by (cases s1) (auto simp: credential_tail_def m_seq_Lit simp del: m_seq.simps(2) split: if_splits)
  let ?F = "\<lambda>g1 sa. map (\<lambda>(gb, s2). ((take (length s1' - length sa) s1' # g1) @ gb, s2))
                            (m_seq ?K2 sa)"
  from k1 have "concat (map (\<lambda>(g1, sa). ?F g1 sa) (m_seq [Plus ?U] s1')) = (g2, r) # Z"
    by (simp only: m_seq_Group)
  from concat_map_hd_pair [OF this] obtain g1 sa zs where
    m: "(g1, sa) \<in> set (m_seq [Plus ?U] s1')" and f: "?F g1 sa = (g2, r) # zs"
    by (elim exE conjE) (rule that)
  from m obtain n where n: "1 \<le> n" "n \<le> length (takeWhile token_char s1')"
    and sa: "sa = drop n s1'" and g1: "g1 = []"
    by (auto simp: m_seq_single)
  have nl: "n \<le> length s1'" using n(2) length_takeWhile_le [of token_char s1'] by linarith
  from f obtain gb zs' where k2: "m_seq ?K2 sa = (gb, r) # zs'"
    and g2: "g2 = (take (length s1' - length sa) s1' # g1) @ gb"
    by (cases "m_seq ?K2 sa") auto
  from k2 obtain sb where sb: "sa = CHR '':'' # sb"
    and k3: "m_seq [Group [Plus ?P]] sb = (gb, r) # zs'"
    by (cases sa) (auto simp: m_seq_Lit simp del: m_seq.simps(2) split: if_splits)
  from group_plus_hd_shape [OF k3]
  have gb: "gb = [takeWhile password_char sb]" and r: "r = dropWhile password_char sb"
    and pne: "takeWhile password_char sb \<noteq> []"
    by simp_all
  let ?u = "take n s1'"
  let ?p = "takeWhile password_char sb"
  have "take n s1' = take n (takeWhile token_char s1')"
    using n(2) by (metis takeWhile_dropWhile_id take_append append_Nil2 diff_is_0_eq take_0)
  then have tk: "\<forall>c \<in> set ?u. token_char c"
    by (metis in_set_takeD set_takeWhileD)
  have une: "?u \<noteq> []" using n(1) nl by (cases s1') auto
  have "length s1' - length sa = n" using sa nl by simp
  then have "g2 = [?u, ?p]" using g2 g1 gb by simp
  moreover have "s1' = ?u @ CHR '':'' # sb" using sa sb by (metis append_take_drop_id)
  moreover have "sb = ?p @ r" using r by simp
  moreover have "\<forall>c \<in> set ?p. password_char c" by (metis set_takeWhileD)
  moreover have "r = [] \<or> \<not> password_char (hd r)" using r hd_dropWhile by metis
  ultimately show ?thesis using s1 tk une pne by (metis append_Cons)
qed

lemma extraction_shape:
  assumes "credential_search line = Some (url, u, pw)"
  shows "\<exists>pre post. line = pre @ url @ '':'' @ u @ '':'' @ pw @ post
           \<and> u \<noteq> [] \<and> (\<forall>c \<in> set u. token_char c)
           \<and> pw \<noteq> [] \<and> (\<forall>c \<in> set pw. password_char c)
           \<and> (post = [] \<or> \<not> password_char (hd post))"
proof -
  from assms have "re_search CREDENTIAL_PATTERN line = Some [url, u, pw]"
    by (auto simp: credential_search_def split: option.splits list.splits)
  from re_search_Some [OF this] obtain pre s r X where line: "line = pre @ s"
    and m: "m_seq CREDENTIAL_PATTERN s = ([url, u, pw], r) # X"
    by blast
  let ?F = "\<lambda>g1 s1. map (\<lambda>(g2, s2). ((take (length s - length s1) s # g1) @ g2, s2))
                            (m_seq credential_tail s1)"
  from m have "concat (map (\<lambda>(g1, s1). ?F g1 s1) (m_seq url_items s)) = ([url, u, pw], r) # X"
    by (simp only: CREDENTIAL_PATTERN_parts m_seq_Group)
  from concat_map_hd_pair [OF this] obtain g1 s1 zs where
    a: "(g1, s1) \<in> set (m_seq url_items s)" and f: "?F g1 s1 = ([url, u, pw], r) # zs"
    by (elim exE conjE) (rule that)
  from f obtain g2 zs' where t: "m_seq credential_tail s1 = (g2, r) # zs'"
    and g: "[url, u, pw] = (take (length s - length s1) s # g1) @ g2"
    by (cases "m_seq credential_tail s1") auto
  from credential_tail_hd_shape [OF t] obtain u' p' where g2: "g2 = [u', p']"
    and s1: "s1 = CHR '':'' # u' @ CHR '':'' # p' @ r"
    and props: "u' \<noteq> []" "\<forall>c \<in> set u'. token_char c" "p' \<noteq> []"
      "\<forall>c \<in> set p'. password_char c" "r = [] \<or> \<not> password_char (hd r)"
    by blast
  from g g2 have eqs: "url = take (length s - length s1) s" "u = u'" "pw = p'" by auto
  from m_seq_suffix [OF a] obtain b where b: "s = b @ s1" by (auto simp: suffix_def)
  then have "url = b" using eqs(1) by simp
  then have "line = pre @ url @ '':'' @ u @ '':'' @ pw @ r"
    using line b s1 eqs by simp
  then show ?thesis using props eqs by blast
qed

lemma opt_port_then:
  assumes "port \<noteq> []" and "\<forall>c \<in> set port. isdecimal c" and "\<not> isdecimal c"
  shows "\<exists>X. m_seq (Opt [Lit CHR '':'', Plus (In [Cat_Digit])] # rs) (CHR '':'' # port @ c # t)
             = m_seq rs (c # t) @ X"
proof -
  have "c # t = [] \<or> \<not> isdecimal (hd (c # t))"
    using assms(3) by simp
  then have "takeWhile (in_cset (In [Cat_Digit])) (port @ c # t) = port"
    by (simp only: in_cset_digit takeWhile_run [OF assms(2)])
  from m_seq_Plus_first [OF this assms(1), of "[]"]
  obtain Y where "m_seq [Plus (In [Cat_Digit])] (port @ c # t) = ([], c # t) # Y"
    by auto
  then have "m_seq [Lit CHR '':'', Plus (In [Cat_Digit])] (CHR '':'' # port @ c # t) =
               ([], c # t) # Y"
    by (simp add: m_seq_Lit del: m_seq.simps(2))
  then show ?thesis by (rule m_seq_Opt_first)
qed

lemma url_tail_port:
  assumes "host \<noteq> []" and "\<forall>c \<in> set host. token_char c"
    and "port \<noteq> []" and "\<forall>c \<in> set port. isdecimal c"
  shows "\<exists>X. m_seq url_tail (host @ CHR '':'' # port @ CHR '':'' # t) = ([], CHR '':'' # t) # X"
proof -
  let ?s = "CHR '':'' # port @ CHR '':'' # t"
  let ?rs = "[Opt [Lit CHR '':'', Plus (In [Cat_Digit])],
              Opt [Lit CHR ''/'', Star (Not_In [Cat_Space])]]"
  have "?s = [] \<or> \<not> token_char (hd ?s)" by (simp add: not_token_char_colon)
  then have "takeWhile (in_cset (Not_In [Cat_Space, Chr CHR '':'', Chr CHR ''/''])) (host @ ?s) = host"
    by (simp only: in_cset_host takeWhile_run [OF assms(2)])
  from m_seq_Plus_first [OF this assms(1), of ?rs]
  obtain X1 where "m_seq (Plus (Not_In [Cat_Space, Chr CHR '':'', Chr CHR ''/'']) # ?rs) (host @ ?s) =
      m_seq ?rs (drop (length host) (host @ ?s)) @ X1"
    by blast
  moreover have "drop (length host) (host @ ?s) = ?s" by simp
  ultimately have 1: "m_seq url_tail (host @ ?s) = m_seq ?rs ?s @ X1"
    by (simp only: url_tail_def)
  from opt_port_then [OF assms(3,4) not_isdecimal_colon]
  obtain X2 where 2: "m_seq ?rs ?s =
      m_seq [Opt [Lit CHR ''/'', Star (Not_In [Cat_Space])]] (CHR '':'' # t) @ X2"
    by blast
  have 3: "m_seq [Opt [Lit CHR ''/'', Star (Not_In [Cat_Space])]] (CHR '':'' # t) =
             [([], CHR '':'' # t)]"
    by (rule opt_path_other) simp
  show ?thesis
    by (simp only: 1 2 3 append_assoc append_Cons append_Nil) blast
qed

lemma port_url_parse:
  assumes scheme: "str_lower scheme = ''http'' \<or> str_lower scheme = ''https''"
    and host: "host \<noteq> []" "\<forall>c \<in> set host. token_char c"
    and port: "port \<noteq> []" "\<forall>c \<in> set port. isdecimal c"
    and user: "user \<noteq> []" "\<forall>c \<in> set user. token_char c"
    and pw: "pw \<noteq> []" "\<forall>c \<in> set pw. password_char c"
    and rest: "rest = [] \<or> \<not> password_char (hd rest)"
    and pre: "no_match_starts_in pre
                (scheme @ ''://'' @ host @ (CHR '':'' # port) @ '':'' @ user @ '':'' @ pw @ rest)"
  shows "credential_search
           (pre @ scheme @ ''://'' @ host @ (CHR '':'' # port) @ '':'' @ user @ '':'' @ pw @ rest)
         = Some (scheme @ ''://'' @ host @ (CHR '':'' # port), user, pw)"
proof -
  define t where "t = user @ CHR '':'' # pw @ rest"
  define s where "s = CHR '':'' # t"
  define input where "input = scheme @ ''://'' @ host @ CHR '':'' # port @ s"
  define url where "url = scheme @ ''://'' @ host @ CHR '':'' # port"
  from url_tail_port [OF host port, of t] obtain X where
    tail0: "m_seq url_tail (host @ CHR '':'' # port @ s) = [] @ ([], s) # X"
    unfolding s_def by auto
  have cands: "m_seq url_items input = [] @ ([], s) # X"
    by (simp only: input_def scheme_match [OF scheme] tail0)
  have fails: "\<forall>a \<in> set []. m_seq credential_tail (snd a) = []"
    by simp
  from credential_tail_hd [OF user pw rest]
  obtain C where tail: "m_seq credential_tail s = ([user, pw], rest) # C"
    by (auto simp: s_def t_def)
  from m_seq_Group_first [OF cands fails tail]
  obtain Y where "m_seq (Group url_items # credential_tail) input =
      ((take (length input - length s) input # []) @ [user, pw], rest) # Y"
    by blast
  moreover have "take (length input - length s) input = url"
  proof -
    have "input = url @ s" by (simp add: input_def url_def)
    then show ?thesis by simp
  qed
  ultimately have "m_seq CREDENTIAL_PATTERN input = ([url, user, pw], rest) # Y"
    by (simp add: CREDENTIAL_PATTERN_parts del: m_seq.simps(2))
  moreover have "scheme @ ''://'' @ host @ (CHR '':'' # port) @ '':'' @ user @ '':'' @ pw @ rest = input"
    by (simp add: input_def s_def t_def)
  ultimately show ?thesis using pre credential_search_hd unfolding url_def by metis
qed

text \<open>
  C3, as amended. A password that holds a colon is not captured whole in every line: when
  the URL has a path, or when it has no port and the username is all digits, the URL
  group takes more (\<open>https://a.com/x:bob:p:ss\<close> gives the username \<open>p\<close> and the
  password \<open>ss\<close>). What holds: for a credential \<open>scheme://host:user:pass\<close> or
  \<open>scheme://host:port:user:pass\<close> whose URL has no path, whose port, if there is
  one, is one or more digits, whose username is a non-empty token (with a character
  that is not a digit when there is no port), and whose password is non-empty and
  holds no slash or whitespace but may hold colons, followed by the end of the line, a
  slash or whitespace and with no match starting before it, extraction yields the URL
  with its port, that username and the whole password. And in every extraction from
  any line the username is non-empty and holds no colon (nor slash, nor whitespace),
  and the password is the longest run of characters other than slash and whitespace
  after the second separator: it may hold colons and ends at the next slash or
  whitespace or at the end of the line.
\<close>

theorem credential_search_password_with_colon:
  assumes "str_lower scheme = ''http'' \<or> str_lower scheme = ''https''"
    and "host \<noteq> []" and "\<forall>c \<in> set host. token_char c"
    and "port_part port" and "port = [] \<longrightarrow> (\<exists>c \<in> set user. \<not> isdecimal c)"
    and "user \<noteq> []" and "\<forall>c \<in> set user. token_char c"
    and "pw \<noteq> []" and "\<forall>c \<in> set pw. password_char c"
    and "rest = [] \<or> \<not> password_char (hd rest)"
    and "no_match_starts_in pre (scheme @ ''://'' @ host @ port @ '':'' @ user @ '':'' @ pw @ rest)"
  shows "credential_search (pre @ scheme @ ''://'' @ host @ port @ '':'' @ user @ '':'' @ pw @ rest)
           = Some (scheme @ ''://'' @ host @ port, user, pw)
       \<and> (\<forall>line url u p. credential_search line = Some (url, u, p) \<longrightarrow>
             CHR '':'' \<notin> set u \<and> u \<noteq> [] \<and> (\<forall>c \<in> set u. token_char c)
             \<and> p \<noteq> [] \<and> (\<forall>c \<in> set p. password_char c)
             \<and> (\<exists>a b. line = a @ url @ '':'' @ u @ '':'' @ p @ b
                      \<and> (b = [] \<or> \<not> password_char (hd b))))"
proof (intro conjI allI impI)
  show "credential_search (pre @ scheme @ ''://'' @ host @ port @ '':'' @ user @ '':'' @ pw @ rest)
          = Some (scheme @ ''://'' @ host @ port, user, pw)"
  proof (cases port)
    case Nil
    then have "\<exists>c \<in> set user. \<not> isdecimal c" using assms(5) by simp
    from bare_url_parse [OF assms(1,2,3,6,7) this assms(8,9,10)] assms(11) Nil
    show ?thesis by simp
  next
    case (Cons c digits)
    then have c: "c = CHR '':''" and d: "digits \<noteq> []" "\<forall>d \<in> set digits. isdecimal d"
      using assms(4) by simp_all
    from port_url_parse [OF assms(1,2,3) d assms(6,7,8,9,10)] assms(11) Cons c
    show ?thesis by simp
  qed
next
  fix line url u p
  assume "credential_search line = Some (url, u, p)"
  from extraction_shape [OF this] obtain a b where
    s: "line = a @ url @ '':'' @ u @ '':'' @ p @ b"
    "u \<noteq> []" "\<forall>c \<in> set u. token_char c" "p \<noteq> []" "\<forall>c \<in> set p. password_char c"
    "b = [] \<or> \<not> password_char (hd b)"
    by (elim exE conjE) (rule that)
  show "CHR '':'' \<notin> set u" using s(3) token_char_not_colon by blast
  show "u \<noteq> []" by (rule s(2))
  show "\<forall>c \<in> set u. token_char c" by (rule s(3))
  show "p \<noteq> []" by (rule s(4))
  show "\<forall>c \<in> set p. password_char c" by (rule s(5))
  show "\<exists>a b. line = a @ url @ '':'' @ u @ '':'' @ p @ b \<and> (b = [] \<or> \<not> password_char (hd b))"
    using s(1,6) by blast
qed

theorem credential_search_password_with_colon_witness:
  "credential_search ([] @ ''https'' @ ''://'' @ ''a.com'' @ [] @ '':'' @ ''bob'' @ '':'' @ ''p:ss'' @ [])
     = Some (''https'' @ ''://'' @ ''a.com'' @ [], ''bob'', ''p:ss'')
   \<and> credential_search
       ([] @ ''https'' @ ''://'' @ ''a.com'' @ '':8443'' @ '':'' @ ''123'' @ '':'' @ ''p:ss'' @ ''/x'')
     = Some (''https'' @ ''://'' @ ''a.com'' @ '':8443'', ''123'', ''p:ss'')"
proof -
  have "credential_search
          ([] @ ''https'' @ ''://'' @ ''a.com'' @ [] @ '':'' @ ''bob'' @ '':'' @ ''p:ss'' @ [])
          = Some (''https'' @ ''://'' @ ''a.com'' @ [], ''bob'', ''p:ss'')
        \<and> (\<forall>line url u p. credential_search line = Some (url, u, p) \<longrightarrow>
             CHR '':'' \<notin> set u \<and> u \<noteq> [] \<and> (\<forall>c \<in> set u. token_char c)
             \<and> p \<noteq> [] \<and> (\<forall>c \<in> set p. password_char c)
             \<and> (\<exists>a b. line = a @ url @ '':'' @ u @ '':'' @ p @ b
                      \<and> (b = [] \<or> \<not> password_char (hd b))))"
    by (rule credential_search_password_with_colon; code_simp)
  moreover have "credential_search
          ([] @ ''https'' @ ''://'' @ ''a.com'' @ '':8443'' @ '':'' @ ''123'' @ '':'' @ ''p:ss'' @ ''/x'')
          = Some (''https'' @ ''://'' @ ''a.com'' @ '':8443'', ''123'', ''p:ss'')
        \<and> (\<forall>line url u p. credential_search line = Some (url, u, p) \<longrightarrow>
             CHR '':'' \<notin> set u \<and> u \<noteq> [] \<and> (\<forall>c \<in> set u. token_char c)
             \<and> p \<noteq> [] \<and> (\<forall>c \<in> set p. password_char c)
             \<and> (\<exists>a b. line = a @ url @ '':'' @ u @ '':'' @ p @ b
                      \<and> (b = [] \<or> \<not> password_char (hd b))))"
    by (rule credential_search_password_with_colon; code_simp)
  ultimately show ?thesis by blast
qed

theorem credential_search_password_with_colon_counterexample:
  "credential_search ''https://a.com/x:bob:p:ss'' = Some (''https://a.com/x:bob'', ''p'', ''ss'')
   \<and> credential_search ''https://a.com:123:p:ss'' = Some (''https://a.com:123'', ''p'', ''ss'')"
  by code_simp


section \<open>Properties of the Scanner\<close>

lemma str_in_iff: "str_in k s \<longleftrightarrow> (\<exists>a b. s = a @ k @ b)"
proof (induction s)
  case Nil
  then show ?case by auto
next
  case (Cons c s)
  show ?case
  proof
    assume "str_in k (c # s)"
    then consider "prefix k (c # s)" | "str_in k s" by auto
    then show "\<exists>a b. c # s = a @ k @ b"
    proof cases
      case 1
      then obtain b where "c # s = k @ b" by (auto simp: prefix_def)
      then have "c # s = [] @ k @ b" by simp
      then show ?thesis by blast
    next
      case 2
      with Cons.IH obtain a b where "s = a @ k @ b" by blast
      then have "c # s = (c # a) @ k @ b" by simp
      then show ?thesis by blast
    qed
  next
    assume "\<exists>a b. c # s = a @ k @ b"
    then obtain a b where ab: "c # s = a @ k @ b" by blast
    show "str_in k (c # s)"
    proof (cases a)
      case Nil
      with ab have "prefix k (c # s)" by (simp add: prefix_def)
      then show ?thesis by simp
    next
      case (Cons x a')
      with ab have "s = a' @ k @ b" by simp
      with Cons.IH have "str_in k s" by blast
      then show ?thesis by simp
    qed
  qed
qed

lemma scan_line_cases:
  "scan_line p kws n line = [] \<or>
   (\<exists>url u pw. scan_line p kws n line = [match_record url u pw p n])"
  by (auto simp: scan_line_def split: option.splits)

definition match_of :: "path \<Rightarrow> pydict \<Rightarrow> bool" where
  "match_of p d = (\<exists>url u pw n. d = match_record url u pw p n)"

lemma scan_lines_matches:
  "\<forall>d \<in> set acc. match_of p d \<Longrightarrow> \<forall>d \<in> set (scan_lines p kws n ls acc). match_of p d"
proof (induction ls arbitrary: n acc)
  case Nil
  then show ?case by simp
next
  case (Cons l ls)
  have "\<forall>d \<in> set (scan_line p kws n l). match_of p d"
    using scan_line_cases [of p kws n l] unfolding match_of_def by fastforce
  with Cons.prems have step: "\<forall>d \<in> set (acc @ scan_line p kws n l). match_of p d"
    by auto
  show ?case using Cons.IH [OF step] by simp
qed

lemma try_encodings_shape:
  "\<forall>d \<in> set acc. match_of p d \<Longrightarrow>
   (\<forall>d \<in> set (try_encodings fs p kws encs acc). match_of p d) \<or>
   (\<exists>msg. try_encodings fs p kws encs acc = [error_record msg p])"
proof (induction encs arbitrary: acc)
  case Nil
  then show ?case by auto
next
  case (Cons e encs)
  obtain ls en where a: "fs p e = (ls, en)" by (cases "fs p e")
  have m: "\<forall>d \<in> set (scan_lines p kws 1 ls acc). match_of p d"
    using Cons.prems by (rule scan_lines_matches)
  show ?case
  proof (cases en)
    case Eof
    with a m show ?thesis by simp
  next
    case Decode_Error
    with a Cons.IH [OF m] show ?thesis by simp
  next
    case Other_Error
    with a show ?thesis by auto
  qed
qed

lemma search_shape:
  "(\<forall>d \<in> set (search_keywords_in_file fs p kws). match_of p d) \<or>
   (\<exists>msg. search_keywords_in_file fs p kws = [error_record msg p])"
  unfolding search_keywords_in_file_def by (rule try_encodings_shape) simp

lemma try_encodings_failure:
  "file_level_failure fs p encs = Some msg \<Longrightarrow>
   try_encodings fs p kws encs acc = [error_record msg p]"
proof (induction encs arbitrary: acc)
  case Nil
  then show ?case by simp
next
  case (Cons e encs)
  obtain ls en where a: "fs p e = (ls, en)" by (cases "fs p e")
  show ?case
  proof (cases en)
    case Eof
    with a Cons.prems show ?thesis by simp
  next
    case Decode_Error
    with a Cons.prems have "file_level_failure fs p encs = Some msg" by simp
    from Cons.IH [OF this] a Decode_Error show ?thesis by simp
  next
    case Other_Error
    with a Cons.prems show ?thesis by simp
  qed
qed

lemma scan_files_concat:
  "scan_files fs kws files acc = acc @ concat (map (\<lambda>f. search_keywords_in_file fs f kws) files)"
  by (induction files arbitrary: acc) simp_all

lemma has_key_match_record: "\<not> has_key ''error'' (match_record url u pw p n)"
  by (simp add: has_key_def match_record_def)

lemma has_key_error_record: "has_key ''error'' (error_record msg p)"
  by (simp add: has_key_def error_record_def)

lemma scan_credential_line:
  "scan_line (Str ''legacy.txt'') [''example''] n credential_line =
     [match_record ''http://example.com'' ''user'' ''pass'' (Str ''legacy.txt'') n]"
  by code_simp

lemma scan_filler_line: "scan_line p kws n filler_line = []"
proof -
  have "\<forall>c \<in> set filler_line. lower_char c \<noteq> CHR ''h''"
    by (auto simp: lower_char_def filler_line_def)
  then show ?thesis by (simp add: scan_line_def credential_search_no_h)
qed

text \<open>
  C1. The claim: a decode error partway through an encoding discards what that attempt
  extracted, so a file contributes exactly the records of the first encoding that reads
  it to the end. The program does not: \<open>search_results\<close> is created once, before the
  loop over the encodings, and the \<open>UnicodeDecodeError\<close> branch goes on to the next
  encoding without emptying it. On the file of \<open>legacy_fs\<close> the UTF-8 attempt
  records line 1 and fails, and the ISO-8859-1 attempt records line 1 again: the file
  contributes the record twice, where the one complete decode alone gives it once.
\<close>

theorem search_keywords_in_file_keeps_abandoned_matches:
  "search_keywords_in_file legacy_fs (Str ''legacy.txt'') [''example''] =
     [match_record ''http://example.com'' ''user'' ''pass'' (Str ''legacy.txt'') 1,
      match_record ''http://example.com'' ''user'' ''pass'' (Str ''legacy.txt'') 1]
   \<and> scan_lines (Str ''legacy.txt'') [''example''] 1 (fst (legacy_fs (Str ''legacy.txt'') ''ISO-8859-1'')) [] =
     [match_record ''http://example.com'' ''user'' ''pass'' (Str ''legacy.txt'') 1]"
  by (simp add: search_keywords_in_file_def encodings_to_try_def legacy_fs_def
      scan_credential_line scan_filler_line)

text \<open>
  C4. Per-file failure isolation: when the reader fails for one file \<open>f\<close> of the
  discovered files, the scan of all the files is the contributions of the files before
  it, each what that file yields on its own, then exactly one error record for \<open>f\<close>,
  then the contributions of the files after it, each again what that file yields on its
  own. The failure neither stops the loop nor changes another file's records.
\<close>

theorem scan_files_isolates_failure:
  assumes "file_level_failure fs f encodings_to_try = Some msg"
  shows "scan_files fs kws (xs @ f # ys) [] =
           concat (map (\<lambda>g. search_keywords_in_file fs g kws) xs)
           @ [error_record msg f]
           @ concat (map (\<lambda>g. search_keywords_in_file fs g kws) ys)"
proof -
  have "search_keywords_in_file fs f kws = [error_record msg f]"
    unfolding search_keywords_in_file_def using assms by (rule try_encodings_failure)
  then show ?thesis by (simp add: scan_files_concat)
qed

theorem scan_files_isolates_failure_witness:
  "file_level_failure sample_fs (Str ''b.txt'') encodings_to_try =
     Some (Str ''Error reading file with encoding utf-8'')
   \<and> scan_files sample_fs [''example''] ([(Str ''a.txt'')] @ (Str ''b.txt'') # [(Str ''c.txt'')]) [] =
     [match_record ''http://example.com'' ''alice'' ''pw1'' (Str ''a.txt'') 1,
      error_record (Str ''Error reading file with encoding utf-8'') (Str ''b.txt''),
      match_record ''https://example.com/x'' ''bob'' ''pw2'' (Str ''c.txt'') 2]"
proof -
  have h: "file_level_failure sample_fs (Str ''b.txt'') encodings_to_try =
             Some (Str ''Error reading file with encoding utf-8'')"
    by code_simp
  have a: "search_keywords_in_file sample_fs (Str ''a.txt'') [''example''] =
             [match_record ''http://example.com'' ''alice'' ''pw1'' (Str ''a.txt'') 1]"
    by code_simp
  have c: "search_keywords_in_file sample_fs (Str ''c.txt'') [''example''] =
             [match_record ''https://example.com/x'' ''bob'' ''pw2'' (Str ''c.txt'') 2]"
    by code_simp
  show ?thesis
    using h scan_files_isolates_failure [OF h, of "[''example'']" "[(Str ''a.txt'')]" "[(Str ''c.txt'')]"]
    by (simp add: a c)
qed

text \<open>
  C5. The records one file contributes are either match records only (none of them has
  the key \<open>error\<close>, by which the Result Writer tells the two kinds apart) or exactly
  one error record; they are never a mixture of the two kinds.
\<close>

theorem search_keywords_in_file_matches_or_error:
  "((\<forall>d \<in> set (search_keywords_in_file fs p kws).
        (\<exists>url u pw n. d = match_record url u pw p n) \<and> \<not> has_key ''error'' d)
    \<or> (\<exists>msg. search_keywords_in_file fs p kws = [error_record msg p]))
   \<and> \<not> (\<exists>d1 \<in> set (search_keywords_in_file fs p kws).
          \<exists>d2 \<in> set (search_keywords_in_file fs p kws).
            has_key ''error'' d1 \<and> \<not> has_key ''error'' d2)"
proof -
  let ?r = "search_keywords_in_file fs p kws"
  consider (m) "\<forall>d \<in> set ?r. match_of p d" | (e) msg where "?r = [error_record msg p]"
    using search_shape [of fs p kws] by blast
  then show ?thesis
  proof cases
    case m
    then have "\<forall>d \<in> set ?r. (\<exists>url u pw n. d = match_record url u pw p n) \<and> \<not> has_key ''error'' d"
      unfolding match_of_def using has_key_match_record by fastforce
    then show ?thesis by simp
  next
    case e
    then show ?thesis using has_key_error_record by auto
  qed
qed

theorem search_keywords_in_file_matches_or_error_witness:
  "search_keywords_in_file sample_fs (Str ''c.txt'') [''example''] =
     [match_record ''https://example.com/x'' ''bob'' ''pw2'' (Str ''c.txt'') 2]
   \<and> \<not> has_key ''error'' (match_record ''https://example.com/x'' ''bob'' ''pw2'' (Str ''c.txt'') 2)
   \<and> search_keywords_in_file sample_fs (Str ''b.txt'') [''example''] =
     [error_record (Str ''Error reading file with encoding utf-8'') (Str ''b.txt'')]
   \<and> has_key ''error'' (error_record (Str ''Error reading file with encoding utf-8'') (Str ''b.txt''))"
proof -
  have c: "search_keywords_in_file sample_fs (Str ''c.txt'') [''example''] =
             [match_record ''https://example.com/x'' ''bob'' ''pw2'' (Str ''c.txt'') 2]"
    by code_simp
  have b: "search_keywords_in_file sample_fs (Str ''b.txt'') [''example''] =
             [error_record (Str ''Error reading file with encoding utf-8'') (Str ''b.txt'')]"
    by code_simp
  show ?thesis
    using search_keywords_in_file_matches_or_error [of sample_fs "(Str ''c.txt'')" "[''example'']"]
      search_keywords_in_file_matches_or_error [of sample_fs "(Str ''b.txt'')" "[''example'']"]
    by (simp add: c b has_key_match_record has_key_error_record)
qed



text \<open>
  C10. \<open>search_keywords_in_file\<close> returns for every file system, path and keyword
  list: every exception of the source is a branch of the model, and the model is a
  total function. Its result is a list of records whose keys are exactly \<open>url\<close>,
  \<open>username\<close>, \<open>password\<close>, \<open>source\<close>, \<open>line\<close>, or a list of one record whose
  keys are exactly \<open>error\<close> and \<open>source\<close>.
\<close>

theorem search_keywords_in_file_result_keys:
  "(\<forall>d \<in> set (search_keywords_in_file fs p kws).
       map fst d = [''url'', ''username'', ''password'', ''source'', ''line''])
   \<or> (\<exists>d. search_keywords_in_file fs p kws = [d] \<and> map fst d = [''error'', ''source''])"
proof -
  let ?r = "search_keywords_in_file fs p kws"
  consider (m) "\<forall>d \<in> set ?r. match_of p d" | (e) msg where "?r = [error_record msg p]"
    using search_shape [of fs p kws] by blast
  then show ?thesis
  proof cases
    case m
    have "\<And>d. match_of p d \<Longrightarrow> map fst d = [''url'', ''username'', ''password'', ''source'', ''line'']"
      by (auto simp: match_of_def match_record_def)
    with m show ?thesis by simp
  next
    case e
    have "map fst (error_record msg p) = [''error'', ''source'']"
      by (simp add: error_record_def)
    with e show ?thesis by simp
  qed
qed

theorem search_keywords_in_file_result_keys_witness:
  "map fst (hd (search_keywords_in_file sample_fs (Str ''a.txt'') [''example''])) =
     [''url'', ''username'', ''password'', ''source'', ''line'']
   \<and> length (search_keywords_in_file sample_fs (Str ''a.txt'') [''example'']) = 1
   \<and> map fst (hd (search_keywords_in_file sample_fs (Str ''b.txt'') [''example''])) =
     [''error'', ''source'']
   \<and> length (search_keywords_in_file sample_fs (Str ''b.txt'') [''example'']) = 1"
proof -
  have a: "search_keywords_in_file sample_fs (Str ''a.txt'') [''example''] =
             [match_record ''http://example.com'' ''alice'' ''pw1'' (Str ''a.txt'') 1]"
    by code_simp
  have b: "search_keywords_in_file sample_fs (Str ''b.txt'') [''example''] =
             [error_record (Str ''Error reading file with encoding utf-8'') (Str ''b.txt'')]"
    by code_simp
  show ?thesis
    using search_keywords_in_file_result_keys [of sample_fs "(Str ''a.txt'')" "[''example'']"]
      search_keywords_in_file_result_keys [of sample_fs "(Str ''b.txt'')" "[''example'']"]
    by (simp add: a b match_record_def error_record_def)
qed

section \<open>Properties of the Result Writer\<close>

lemma Str_plain: "\<not> list_ex is_surrogate (Str s)"
  by (induction s) (simp_all add: Str_def)

lemma as_char_Str: "map as_char (Str s) = s"
  by (induction s) (simp_all add: Str_def)

lemma Str_as_char: "\<not> list_ex is_surrogate t \<Longrightarrow> Str (map as_char t) = t"
proof (induction t)
  case Nil
  then show ?case by (simp add: Str_def)
next
  case (Cons c t)
  then show ?case by (cases c) (simp_all add: Str_def)
qed

lemma Str_append: "Str (a @ b) = Str a @ Str b"
  by (simp add: Str_def)

lemma f_write_Str: "f_write (Str s) = Some s"
  by (simp add: f_write_def Str_plain as_char_Str)

lemma f_write_append:
  "f_write (a @ b) =
     (case f_write a of None \<Rightarrow> None
      | Some x \<Rightarrow> (case f_write b of None \<Rightarrow> None | Some y \<Rightarrow> Some (x @ y)))"
  by (simp add: f_write_def)

lemma text_of_py_str: "text_of (py_str t) = t"
  by (simp add: py_str_def Str_as_char)

lemma py_str_plain: "\<not> list_ex is_surrogate t \<Longrightarrow> py_str t = PStr (map as_char t)"
  by (simp add: py_str_def)

lemma dict_to_list_match:
  "dict_to_list (match_record url u pw p n) = Inr [PStr url, PStr u, PStr pw, py_str p, PInt n]"
  by (simp add: dict_to_list_def match_record_def fieldnames_def)

lemma writerow_match:
  "writerow (match_record url u pw p n) =
     (if list_ex is_surrogate p then Inl Encode_Error
      else Inr [PStr url, PStr u, PStr pw, PStr (map as_char p), PInt n])"
  by (simp add: writerow_def dict_to_list_match f_write_def text_of_py_str Str_plain py_str_plain)

lemma txt_line_match:
  "txt_line (match_record url u pw p n) =
     (if list_ex is_surrogate p then Inl Encode_Error
      else Inr (''URL: '' @ url @ '', Username: '' @ u @ '', Password: '' @ pw
                @ '', Source: '' @ map as_char p @ '', Line: '' @ str_int n @ [CHR 0x0A]))"
proof -
  have s: "subscripts (match_record url u pw p n)
             [''url'', ''username'', ''password'', ''source'', ''line''] =
           Inr [PStr url, PStr u, PStr pw, py_str p, PInt n]"
    by (simp add: match_record_def)
  have w: "f_write p = (if list_ex is_surrogate p then None else Some (map as_char p))"
    by (simp add: f_write_def)
  show ?thesis
    unfolding txt_line_def s
    by (simp add: f_write_append f_write_Str text_of_py_str w)
qed

lemma write_rows_records:
  "write_rows (map dict_of recs) =
     (concat (map csv_rows_of (takeWhile writable recs)),
      if list_all writable recs then None else Some Encode_Error)"
proof (induction recs)
  case Nil
  then show ?case by simp
next
  case (Cons r recs)
  then show ?case
    by (cases r) (simp_all add: has_key_match_record has_key_error_record writerow_match)
qed

lemma write_lines_records:
  "write_lines (map dict_of recs) =
     (concat (map txt_of (takeWhile writable recs)),
      if list_all writable recs then None else Some Encode_Error)"
proof (induction recs)
  case Nil
  then show ?case by simp
next
  case (Cons r recs)
  then show ?case
    by (cases r) (simp_all add: has_key_match_record has_key_error_record txt_line_match)
qed

text \<open>
  C7, as amended. The claim fails for a scan result that holds a match record whose
  source cannot be encoded as UTF-8, which is the case for a file whose name holds
  bytes that are not UTF-8: the write of that record raises \<open>UnicodeEncodeError\<close>,
  which \<open>save_results\<close> catches, and neither that record nor any later one reaches
  the output. What holds, for every scan result of match records and error records in
  any mixture, when the output file can be opened: the csv output is the header row
  \<open>url\<close>, \<open>username\<close>, \<open>password\<close>, \<open>source\<close>, \<open>line\<close> followed by one data
  row for each match record, in the order of the scan result, and the txt output is
  one formatted line for each match record, in that order, up to the first match
  record whose source cannot be encoded. When there is none, that is every match
  record of the scan result and no exception is caught; otherwise the output ends
  before that record and the encoding error is caught. An error record contributes
  nothing to either output.
\<close>

theorem save_results_csv_txt_match_records_only:
  "save_results None (map dict_of recs) ''csv'' =
     \<lparr>output_file = Written (Csv_Rows
        ([PStr ''url'', PStr ''username'', PStr ''password'', PStr ''source'', PStr ''line'']
         # concat (map csv_rows_of (takeWhile writable recs)))),
      caught = (if list_all writable recs then None else Some Encode_Error)\<rparr>
   \<and> save_results None (map dict_of recs) ''txt'' =
     \<lparr>output_file = Written (Plain_Text (concat (map txt_of (takeWhile writable recs)))),
      caught = (if list_all writable recs then None else Some Encode_Error)\<rparr>
   \<and> (list_all writable recs \<longrightarrow> takeWhile writable recs = recs)"
  by (simp add: save_results_def with_open_def write_rows_records write_lines_records
      fieldnames_def list_all_iff)

theorem save_results_csv_txt_match_records_only_witness:
  "save_results None
     [match_record ''http://a.com'' ''u'' ''p'' (Str ''f.txt'') 12,
      error_record (Str ''Could not read g.txt with available encodings'') (Str ''g.txt''),
      match_record ''http://b.com/x'' ''v'' ''q'' (Str ''h.txt'') 3] ''csv'' =
     \<lparr>output_file = Written (Csv_Rows
        [[PStr ''url'', PStr ''username'', PStr ''password'', PStr ''source'', PStr ''line''],
         [PStr ''http://a.com'', PStr ''u'', PStr ''p'', PStr ''f.txt'', PInt 12],
         [PStr ''http://b.com/x'', PStr ''v'', PStr ''q'', PStr ''h.txt'', PInt 3]]),
      caught = None\<rparr>
   \<and> save_results None
     [match_record ''http://a.com'' ''u'' ''p'' (Str ''f.txt'') 12,
      error_record (Str ''Could not read g.txt with available encodings'') (Str ''g.txt''),
      match_record ''http://b.com/x'' ''v'' ''q'' (Str ''h.txt'') 3] ''txt'' =
     \<lparr>output_file = Written (Plain_Text
        (''URL: http://a.com, Username: u, Password: p, Source: f.txt, Line: 12'' @ [CHR 0x0A]
         @ ''URL: http://b.com/x, Username: v, Password: q, Source: h.txt, Line: 3'' @ [CHR 0x0A])),
      caught = None\<rparr>"
proof -
  have twelve: "str_int 12 = ''12''" and three: "str_int 3 = ''3''"
    by code_simp+
  show ?thesis
    using save_results_csv_txt_match_records_only
      [of "[MatchRecord ''http://a.com'' ''u'' ''p'' (Str ''f.txt'') 12,
            ErrorRecord (Str ''Could not read g.txt with available encodings'') (Str ''g.txt''),
            MatchRecord ''http://b.com/x'' ''v'' ''q'' (Str ''h.txt'') 3]"]
    by (simp add: twelve three Str_plain as_char_Str)
qed

theorem save_results_csv_txt_match_records_only_counterexample:
  "save_results None
     (map dict_of
        [MatchRecord ''http://a.com'' ''u'' ''p'' (Str ''f.txt'') 1,
         MatchRecord ''http://b.com'' ''v'' ''q'' (Str ''n'' @ [Surrogate (CHR 0xE9)] @ Str ''.txt'') 1,
         MatchRecord ''http://c.com'' ''w'' ''r'' (Str ''h.txt'') 1]) ''csv'' =
     \<lparr>output_file = Written (Csv_Rows
        [[PStr ''url'', PStr ''username'', PStr ''password'', PStr ''source'', PStr ''line''],
         [PStr ''http://a.com'', PStr ''u'', PStr ''p'', PStr ''f.txt'', PInt 1]]),
      caught = Some Encode_Error\<rparr>
   \<and> save_results None
     (map dict_of
        [MatchRecord ''http://a.com'' ''u'' ''p'' (Str ''f.txt'') 1,
         MatchRecord ''http://b.com'' ''v'' ''q'' (Str ''n'' @ [Surrogate (CHR 0xE9)] @ Str ''.txt'') 1,
         MatchRecord ''http://c.com'' ''w'' ''r'' (Str ''h.txt'') 1]) ''txt'' =
     \<lparr>output_file = Written (Plain_Text
        (''URL: http://a.com, Username: u, Password: p, Source: f.txt, Line: 1'' @ [CHR 0x0A])),
      caught = Some Encode_Error\<rparr>"
  by code_simp

section \<open>Properties of the program\<close>

lemma ask_overwrite_decision:
  "ask_overwrite typed_lines =
     (case dropWhile undecided typed_lines of
        [] \<Rightarrow> (Uncaught_EOFError,
               replicate (length (takeWhile undecided typed_lines)) Msg_Respond_Y_Or_N)
      | typed # later \<Rightarrow>
          if str_lower (str_strip typed) = ''y''
          then (Valid, replicate (length (takeWhile undecided typed_lines)) Msg_Respond_Y_Or_N)
          else (Exit_0, replicate (length (takeWhile undecided typed_lines)) Msg_Respond_Y_Or_N
                        @ [Msg_Cancelled]))"
proof (induction typed_lines)
  case Nil
  then show ?case by simp
next
  case (Cons typed rest)
  show ?case
  proof (cases "undecided typed")
    case True
    then have r: "str_lower (str_strip typed) \<noteq> ''y''" "str_lower (str_strip typed) \<noteq> ''n''"
      by (simp_all add: undecided_def)
    note IH = Cons.IH
    show ?thesis
    proof (cases "dropWhile undecided rest")
      case Nil
      show ?thesis by (simp add: IH Nil True r Let_def)
    next
      case (Cons answer later)
      show ?thesis by (simp add: IH Cons True r Let_def)
    qed
  next
    case False
    then have r: "str_lower (str_strip typed) = ''y'' \<or> str_lower (str_strip typed) = ''n''"
      by (simp add: undecided_def)
    then show ?thesis
      by (auto simp: False Let_def)
  qed
qed




end
